theory Spec2Isabelle
  imports Main "HOL-Library.Word"
begin

section \<open>JavaScript strings\<close>

text \<open>
  A JavaScript string is a sequence of UTF-16 code units; \<open>length\<close>, \<open>slice\<close>,
  \<open>charAt\<close> and the regular expressions of this site (none has the \<open>u\<close> flag) count
  and match code units. Numbers that only ever hold small non-negative integers (the
  request counter, grid sizes and indices) are exact in a double below \<open>2^53\<close> and are
  modelled by \<open>nat\<close> and \<open>int\<close>.
\<close>

type_synonym uchar = "16 word"
type_synonym ustring = "uchar list"

definition js :: "string \<Rightarrow> ustring" where
  "js cs = map of_char cs"

text \<open>White space as \<open>\s\<close> and \<open>trimStart\<close> see it: WhiteSpace and LineTerminator.\<close>

definition is_space :: "uchar \<Rightarrow> bool" where
  "is_space c \<longleftrightarrow>
     c \<in> {0x09, 0x0A, 0x0B, 0x0C, 0x0D, 0x20, 0xA0, 0x1680, 0x2028, 0x2029, 0x202F,
          0x205F, 0x3000, 0xFEFF}
     \<or> (0x2000 \<le> c \<and> c \<le> 0x200A)"

definition is_line_break :: "uchar \<Rightarrow> bool" where
  "is_line_break c \<longleftrightarrow> c = 0x0D \<or> c = 0x0A"

definition trimStart :: "ustring \<Rightarrow> ustring" where
  "trimStart s = dropWhile is_space s"

definition startsWith :: "ustring \<Rightarrow> ustring \<Rightarrow> bool" where
  "startsWith s p \<longleftrightarrow> take (length p) s = p"

fun join :: "ustring \<Rightarrow> ustring list \<Rightarrow> ustring" where
  "join sep [] = []"
| "join sep [c] = c"
| "join sep (c # d # cs) = c @ sep @ join sep (d # cs)"

text \<open>
  \<open>split\<close> on a one-character separator class: empty chunks are kept, and the empty
  string splits into one empty chunk.
\<close>

fun split :: "(uchar \<Rightarrow> bool) \<Rightarrow> ustring \<Rightarrow> ustring list" where
  "split p [] = [[]]"
| "split p (x # xs) =
     (if p x then [] # split p xs
      else (case split p xs of [] \<Rightarrow> [[x]] | c # cs \<Rightarrow> (x # c) # cs))"

section \<open>Backtracking regular expressions\<close>

text \<open>
  The two patterns of the site use character classes, greedy and lazy repetition of a
  class, an optional character, alternation and the end-of-input assertion. A matcher
  returns what is left of the input after each way of matching, in the order in which a
  backtracking engine tries them; the engine's answer is the first one.
\<close>

datatype cls = AnyChar | Space | LineBreak | OneOf "uchar list"

fun in_cls :: "cls \<Rightarrow> uchar \<Rightarrow> bool" where
  "in_cls AnyChar c = True"
| "in_cls Space c = is_space c"
| "in_cls LineBreak c = is_line_break c"
| "in_cls (OneOf cs) c = (c \<in> set cs)"

datatype rx =
    Ch cls
  | Star cls
  | Plus cls
  | LazyStar cls
  | Opt rx
  | Seq rx rx
  | Alt rx rx
  | EndOfInput

fun star_greedy :: "cls \<Rightarrow> ustring \<Rightarrow> ustring list" where
  "star_greedy c [] = [[]]"
| "star_greedy c (x # xs) = (if in_cls c x then star_greedy c xs @ [x # xs] else [x # xs])"

fun star_lazy :: "cls \<Rightarrow> ustring \<Rightarrow> ustring list" where
  "star_lazy c [] = [[]]"
| "star_lazy c (x # xs) = (x # xs) # (if in_cls c x then star_lazy c xs else [])"

fun rx_match :: "rx \<Rightarrow> ustring \<Rightarrow> ustring list" where
  "rx_match (Ch c) s = (case s of [] \<Rightarrow> [] | x # xs \<Rightarrow> if in_cls c x then [xs] else [])"
| "rx_match (Star c) s = star_greedy c s"
| "rx_match (Plus c) s =
     (case s of [] \<Rightarrow> [] | x # xs \<Rightarrow> if in_cls c x then star_greedy c xs else [])"
| "rx_match (LazyStar c) s = star_lazy c s"
| "rx_match (Opt a) s = rx_match a s @ [s]"
| "rx_match (Seq a b) s = concat (map (rx_match b) (rx_match a s))"
| "rx_match (Alt a b) s = rx_match a s @ rx_match b s"
| "rx_match EndOfInput s = (if s = [] then [s] else [])"

fun lit :: "ustring \<Rightarrow> rx \<Rightarrow> rx" where
  "lit [] r = r"
| "lit (c # cs) r = Seq (Ch (OneOf [c])) (lit cs r)"

text \<open>
  An unanchored search tries every start index from the left; the result is the text
  before the match and the text after it.
\<close>

fun rx_search :: "rx \<Rightarrow> ustring \<Rightarrow> (ustring \<times> ustring) option" where
  "rx_search r [] = (case rx_match r [] of [] \<Rightarrow> None | t # _ \<Rightarrow> Some ([], t))"
| "rx_search r (x # xs) =
     (case rx_match r (x # xs) of
        t # _ \<Rightarrow> Some ([], t)
      | [] \<Rightarrow> map_option (\<lambda>(b, t). (x # b, t)) (rx_search r xs))"

definition rx_test :: "rx \<Rightarrow> ustring \<Rightarrow> bool" where
  "rx_test r s \<longleftrightarrow> rx_search r s \<noteq> None"

definition rx_remove :: "rx \<Rightarrow> ustring \<Rightarrow> ustring" where
  "rx_remove r s = (case rx_search r s of None \<Rightarrow> s | Some (b, t) \<Rightarrow> b @ t)"

section \<open>Front matter (MainSection.svelte)\<close>

datatype exn = Error ustring | Thrown

datatype log_arg = LogExn exn | LogStatus nat

type_synonym log_entry = "ustring \<times> log_arg"

datatype yaml =
    YUndefined
  | YNull
  | YPrimitive ustring
  | YDate ustring
  | YSeq "yaml list"
  | YMap "(ustring \<times> yaml) list"

text \<open>\<open>typeof data === "object" && data\<close>: arrays, mappings and dates, but not \<open>null\<close>.\<close>

fun is_object :: "yaml \<Rightarrow> bool" where
  "is_object (YDate _) = True"
| "is_object (YSeq _) = True"
| "is_object (YMap _) = True"
| "is_object _ = False"

text \<open>
  \<open>/^---\s*[\r\n]+([\s\S]*?)\r?\n---\s*(?:[\r\n]+|$)/\<close>, cut at its capture group.
\<close>

definition FRONT_MATTER_OPEN :: rx where
  "FRONT_MATTER_OPEN = lit (js ''---'') (Seq (Star Space) (Plus LineBreak))"

definition FRONT_MATTER_CLOSE :: rx where
  "FRONT_MATTER_CLOSE =
     Seq (Opt (Ch (OneOf [0x0D])))
       (lit [0x0A, 0x2D, 0x2D, 0x2D] (Seq (Star Space) (Alt (Plus LineBreak) EndOfInput)))"

text \<open>
  \<open>markdown.match(FRONT_MATTER_PATTERN)\<close>: the pattern starts with \<open>^\<close> and has no
  \<open>m\<close> flag, so only index 0 can match. The result is \<open>[fullMatch, rawFrontMatter]\<close>.
\<close>

definition FRONT_MATTER_PATTERN :: "ustring \<Rightarrow> (ustring \<times> ustring) list" where
  "FRONT_MATTER_PATTERN markdown =
     concat (map (\<lambda>r1.
       concat (map (\<lambda>r2.
         map (\<lambda>r3. (take (length markdown - length r3) markdown,
                     take (length r1 - length r2) r1))
           (rx_match FRONT_MATTER_CLOSE r2))
         (rx_match (LazyStar AnyChar) r1)))
       (rx_match FRONT_MATTER_OPEN markdown))"

definition match_front_matter :: "ustring \<Rightarrow> (ustring \<times> ustring) option" where
  "match_front_matter markdown =
     (case FRONT_MATTER_PATTERN markdown of [] \<Rightarrow> None | m # _ \<Rightarrow> Some m)"

record parsed =
  content :: ustring
  data :: "yaml option"

text \<open>
  \<open>parseYaml\<close> is js-yaml's \<open>load\<close>; it returns a value or throws. The second
  component of the result is what the call wrote with \<open>console.error\<close>.
\<close>

definition parseFrontMatter ::
  "(ustring \<Rightarrow> exn + yaml) \<Rightarrow> ustring \<Rightarrow> parsed \<times> log_entry list" where
  "parseFrontMatter parseYaml markdown =
     (if \<not> startsWith (trimStart markdown) (js ''---'') then
        (\<lparr>content = markdown, data = None\<rparr>, [])
      else
        (case match_front_matter markdown of
           None \<Rightarrow> (\<lparr>content = markdown, data = None\<rparr>, [])
         | Some (fullMatch, rawFrontMatter) \<Rightarrow>
             (let content = drop (length fullMatch) markdown in
              (case parseYaml rawFrontMatter of
                 Inr d \<Rightarrow>
                   (\<lparr>content = trimStart content,
                     data = (if is_object d then Some d else None)\<rparr>, [])
               | Inl error \<Rightarrow>
                   (\<lparr>content = markdown, data = None\<rparr>,
                    [(js ''Could not parse front matter'', LogExn error)])))))"

section \<open>Notes loader (the page's load function)\<close>

record github_file =
  name :: ustring
  path :: ustring
  type :: ustring
  download_url :: "ustring option"

record article =
  title :: ustring
  slug :: ustring
  download_url :: "ustring option"
  path :: ustring

text \<open>
  The answer of \<open>fetch\<close>: the promise rejects, or it resolves to a response with an
  HTTP status and a body whose reading (\<open>json()\<close>, \<open>text()\<close>) may itself throw.
  \<open>response.ok\<close> is true for the statuses 200 to 299.
\<close>

datatype 'b fetched = Rejected exn | Response nat "exn + 'b"

definition ok :: "nat \<Rightarrow> bool" where
  "ok status \<longleftrightarrow> 200 \<le> status \<and> status \<le> 299"

text \<open>
  \<open>/\.(md|mdx)$/i\<close>. Without the \<open>u\<close> flag a letter of the pattern matches its
  two ASCII cases and nothing else.
\<close>

definition MARKDOWN_PATTERN :: rx where
  "MARKDOWN_PATTERN =
     Seq (Ch (OneOf [0x2E]))
       (Seq (Alt (Seq (Ch (OneOf [0x6D, 0x4D])) (Ch (OneOf [0x64, 0x44])))
                 (Seq (Ch (OneOf [0x6D, 0x4D]))
                    (Seq (Ch (OneOf [0x64, 0x44])) (Ch (OneOf [0x78, 0x58])))))
          EndOfInput)"

text \<open>
  \<open>toUpperCase\<close> is the platform's Unicode upper-casing of a string of at most one
  code unit (\<open>chunk.charAt(0)\<close>); its result may be longer than its argument.
\<close>

definition formatTitle :: "(ustring \<Rightarrow> ustring) \<Rightarrow> ustring \<Rightarrow> ustring" where
  "formatTitle toUpperCase filename =
     join (js '' '')
       (map (\<lambda>chunk. toUpperCase (take 1 chunk) @ drop 1 chunk)
          (split (\<lambda>c. c \<in> {0x2D, 0x5F}) (rx_remove MARKDOWN_PATTERN filename)))"

text \<open>\<open>Boolean(url)\<close>: neither \<open>null\<close> nor the empty string.\<close>

definition truthy :: "ustring option \<Rightarrow> bool" where
  "truthy u \<longleftrightarrow> (case u of None \<Rightarrow> False | Some s \<Rightarrow> s \<noteq> [])"

record load_result =
  articles :: "article list"
  introHtml :: "ustring option"

definition load_failed :: "log_entry \<Rightarrow> load_result \<times> log_entry list" where
  "load_failed entry = (\<lparr>articles = [], introHtml = None\<rparr>, [entry])"

text \<open>
  \<open>marked_parse\<close> is the markdown renderer, which may throw. A body that is not an
  array makes \<open>files.filter\<close> throw; that exception reaches the same \<open>catch\<close> as a
  rejected \<open>json()\<close> and is the \<open>Inl\<close> of the body here.
\<close>

definition load ::
  "(ustring \<Rightarrow> ustring) \<Rightarrow> (ustring \<Rightarrow> exn + ustring) \<Rightarrow> ustring \<Rightarrow>
   github_file list fetched \<Rightarrow> load_result \<times> log_entry list" where
  "load toUpperCase marked_parse introMarkdown response =
     (case response of
        Rejected error \<Rightarrow>
          load_failed (js ''Unexpected error while loading Notes articles'', LogExn error)
      | Response status body \<Rightarrow>
          if \<not> ok status then
            load_failed (js ''Failed to fetch Notes repository contents'', LogStatus status)
          else
            (case body of
               Inl error \<Rightarrow>
                 load_failed
                   (js ''Unexpected error while loading Notes articles'', LogExn error)
             | Inr files \<Rightarrow>
                 (let articles =
                    filter (\<lambda>article. truthy (download_url article))
                      (map (\<lambda>file.
                           \<lparr>title = formatTitle toUpperCase (name file),
                            slug = rx_remove MARKDOWN_PATTERN (name file),
                            download_url = github_file.download_url file,
                            path = github_file.path file\<rparr>)
                         (filter (\<lambda>file. type file = js ''file''
                                     \<and> rx_test MARKDOWN_PATTERN (name file)) files))
                  in (case marked_parse introMarkdown of
                        Inl error \<Rightarrow>
                          load_failed
                            (js ''Unexpected error while loading Notes articles'',
                             LogExn error)
                      | Inr html \<Rightarrow>
                          (\<lparr>articles = articles, introHtml = Some html\<rparr>, [])))))"

section \<open>Article selection (MainSection.svelte)\<close>

record 'm view =
  activeSlug :: "ustring option"
  renderedHtml :: ustring
  isLoading :: bool
  errorMessage :: ustring
  currentRequest :: nat
  activeMeta :: "'m option"

definition initial_view :: "'m view" where
  "initial_view =
     \<lparr>activeSlug = None, renderedHtml = [], isLoading = False, errorMessage = [],
      currentRequest = 0, activeMeta = None\<rparr>"

text \<open>
  \<open>selectArticle\<close> is an async function. Its body up to the first \<open>await\<close> runs at
  the call; between its awaits it touches no component state; and after the last await
  (or in \<open>catch\<close>, when an awaited promise rejects) it runs to its end without
  yielding. So one call is two atomic steps of the event loop, with other calls' steps
  in between: \<open>selectArticle_start\<close>, which returns the captured \<open>requestId\<close> (or
  nothing, on the early return), and \<open>selectArticle_resume\<close>, which gets what the
  awaited part produced.
\<close>

definition selectArticle_start :: "bool \<Rightarrow> article \<Rightarrow> 'm view \<Rightarrow> 'm view \<times> nat option" where
  "selectArticle_start browser article v =
     (if \<not> browser \<or> \<not> truthy (download_url article) then (v, None)
      else
        (let v1 = v\<lparr>currentRequest := currentRequest v + 1\<rparr>;
             requestId = currentRequest v1
         in (v1\<lparr>isLoading := True, errorMessage := [],
                activeSlug := Some (slug article), activeMeta := None\<rparr>,
             Some requestId)))"

text \<open>
  The awaited part: \<open>fetch\<close>, \<open>response.text()\<close>, \<open>parseFrontMatter\<close>,
  \<open>marked.parse\<close> and \<open>toMeta\<close> (a parameter here: no property below looks into the
  metadata). It yields the HTML and the metadata, or the exception that was thrown.
\<close>

definition article_content ::
  "(ustring \<Rightarrow> exn + yaml) \<Rightarrow> (ustring \<Rightarrow> exn + ustring) \<Rightarrow> (yaml option \<Rightarrow> 'm option) \<Rightarrow>
   ustring fetched \<Rightarrow> exn + (ustring \<times> 'm option)" where
  "article_content parseYaml marked_parse toMeta response =
     (case response of
        Rejected error \<Rightarrow> Inl error
      | Response status body \<Rightarrow>
          if \<not> ok status then Inl (Error (js ''Unable to fetch the selected article.''))
          else
            (case body of
               Inl error \<Rightarrow> Inl error
             | Inr markdown \<Rightarrow>
                 (let parsed = fst (parseFrontMatter parseYaml markdown) in
                  (case marked_parse (if content parsed \<noteq> [] then content parsed
                                      else markdown) of
                     Inl error \<Rightarrow> Inl error
                   | Inr html \<Rightarrow> Inr (html, toMeta (data parsed))))))"

definition selectArticle_resume ::
  "nat \<Rightarrow> exn + (ustring \<times> 'm option) \<Rightarrow> 'm view \<Rightarrow> 'm view" where
  "selectArticle_resume requestId outcome v =
     (let v1 =
        (case outcome of
           Inr (html, meta) \<Rightarrow>
             if requestId \<noteq> currentRequest v then v
             else v\<lparr>renderedHtml := html, activeMeta := meta\<rparr>
         | Inl error \<Rightarrow>
             v\<lparr>errorMessage :=
                 (case error of
                    Error message \<Rightarrow> message
                  | Thrown \<Rightarrow> js ''An unexpected error occurred while loading.'')\<rparr>)
      in if requestId = currentRequest v1 then v1\<lparr>isLoading := False\<rparr> else v1)"

text \<open>
  The event loop: a selection starts a call, and a call in flight resumes with its
  outcome. \<open>inflight\<close> lists the request ids of the calls that have not resumed yet,
  \<open>issued\<close> every id handed out so far, latest first.
\<close>

datatype 'm event = Select article | Resume nat "exn + (ustring \<times> 'm option)"

record 'm config =
  view :: "'m view"
  inflight :: "nat list"
  issued :: "nat list"

definition initial_config :: "'m config" where
  "initial_config = \<lparr>view = initial_view, inflight = [], issued = []\<rparr>"

fun step :: "bool \<Rightarrow> 'm config \<Rightarrow> 'm event \<Rightarrow> 'm config" where
  "step browser c (Select article) =
     (case selectArticle_start browser article (view c) of
        (v, None) \<Rightarrow> c\<lparr>view := v\<rparr>
      | (v, Some requestId) \<Rightarrow>
          \<lparr>view = v, inflight = requestId # inflight c, issued = requestId # issued c\<rparr>)"
| "step browser c (Resume requestId outcome) =
     (if requestId \<in> set (inflight c) then
        c\<lparr>view := selectArticle_resume requestId outcome (view c),
          inflight := remove1 requestId (inflight c)\<rparr>
      else c)"

definition run :: "bool \<Rightarrow> 'm event list \<Rightarrow> 'm config" where
  "run browser events = foldl (step browser) initial_config events"

text \<open>
  The content panel of the template, by the branch of its \<open>{#if}\<close> chain;
  \<open>arts\<close> is the component's \<open>articles\<close> property.
\<close>

datatype panel =
    AddFilesHint
  | LoadingArticle
  | ErrorText ustring
  | RenderedArticle ustring
  | SelectHint

definition content_panel :: "article list \<Rightarrow> 'm view \<Rightarrow> panel" where
  "content_panel arts v =
     (if arts = [] then AddFilesHint
      else if isLoading v then LoadingArticle
      else if errorMessage v \<noteq> [] then ErrorText (errorMessage v)
      else if renderedHtml v \<noteq> [] then RenderedArticle (renderedHtml v)
      else SelectHint)"

section \<open>Game of Life background (the canvas component)\<close>

text \<open>
  \<open>grid\<close> and \<open>nextGrid\<close> are arrays of row arrays, and rows are mutated in place,
  so the model keeps an explicit store: \<open>heap\<close> holds every row array ever allocated,
  a row's address is its index there, and \<open>grid\<close> and \<open>nextGrid\<close> are the lists of
  row addresses that the two variables currently refer to. The outer arrays are never
  written after their creation.
\<close>

record canvas_el =
  width :: nat
  height :: nat

record window =
  innerWidth :: nat
  innerHeight :: nat

record life =
  cols :: nat
  rows :: nat
  heap :: "bool list list"
  grid :: "nat list"
  nextGrid :: "nat list"
  canvas :: "canvas_el option"
  browser :: bool

definition cellSize :: nat where
  "cellSize = 15"

definition initial_life :: "canvas_el option \<Rightarrow> life" where
  "initial_life c =
     \<lparr>cols = 100, rows = 60, heap = [], grid = [], nextGrid = [], canvas = c,
      browser = False\<rparr>"

text \<open>
  Where JavaScript would go on with \<open>undefined\<close>, a value outside \<open>boolean[][]\<close>,
  the model stops with a fault, so that every result \<open>Inr\<close> below is a run on which no
  such access happened: \<open>TypeError\<close> is the exception of indexing an \<open>undefined\<close>
  row, \<open>UndefinedCell\<close> the read of a cell outside its row (JavaScript: \<open>undefined\<close>),
  \<open>RowExtended\<close> the write of a cell outside its row (JavaScript: the row grows).
\<close>

datatype fault = TypeError | UndefinedCell | RowExtended

text \<open>The remainder \<open>%\<close> has the sign of the dividend; \<open>None\<close> is \<open>NaN\<close>.\<close>

definition js_rem :: "int \<Rightarrow> int \<Rightarrow> int option" where
  "js_rem a b = (if b = 0 then None else Some (sgn a * (\<bar>a\<bar> mod \<bar>b\<bar>)))"

text \<open>\<open>xs[k]\<close>; \<open>None\<close> is \<open>undefined\<close>.\<close>

definition at_index :: "'a list \<Rightarrow> int option \<Rightarrow> 'a option" where
  "at_index xs k =
     (case k of
        None \<Rightarrow> None
      | Some n \<Rightarrow> if 0 \<le> n \<and> n < int (length xs) then Some (xs ! nat n) else None)"

definition read_cell :: "bool list list \<Rightarrow> nat list \<Rightarrow> int option \<Rightarrow> int option \<Rightarrow> fault + bool" where
  "read_cell h g row col =
     (case at_index g row of
        None \<Rightarrow> Inl TypeError
      | Some a \<Rightarrow> (case at_index (h ! a) col of None \<Rightarrow> Inl UndefinedCell | Some b \<Rightarrow> Inr b))"

definition write_cell :: "life \<Rightarrow> nat list \<Rightarrow> nat \<Rightarrow> nat \<Rightarrow> bool \<Rightarrow> fault + life" where
  "write_cell s g i j v =
     (case at_index g (Some (int i)) of
        None \<Rightarrow> Inl TypeError
      | Some a \<Rightarrow>
          if j < length (heap s ! a) then
            Inr (s\<lparr>heap := (heap s)[a := (heap s ! a)[j := v]]\<rparr>)
          else Inl RowExtended)"

text \<open>A \<open>for\<close> loop over the values of its counter; a fault ends it.\<close>

fun for_each :: "'i list \<Rightarrow> ('i \<Rightarrow> 's \<Rightarrow> fault + 's) \<Rightarrow> 's \<Rightarrow> fault + 's" where
  "for_each [] body s = Inr s"
| "for_each (i # is) body s =
     (case body i s of Inl e \<Rightarrow> Inl e | Inr s' \<Rightarrow> for_each is body s')"

text \<open>
  \<open>Array(rows).fill(null).map(() => Array(cols).fill(false))\<close>: one fresh row array
  per index.
\<close>

definition new_rows :: "nat \<Rightarrow> nat \<Rightarrow> bool list list \<Rightarrow> bool list list \<times> nat list" where
  "new_rows n c h = (h @ replicate n (replicate c False), [length h..<length h + n])"

text \<open>
  \<open>floor03 cols\<close> and \<open>floor07 cols\<close> stand for \<open>Math.floor(cols * 0.3)\<close> and
  \<open>Math.floor(cols * 0.7)\<close>, products of doubles; \<open>random i j\<close> is the outcome of
  \<open>Math.random() > 0.8\<close> when the loop is at cell \<open>(i, j)\<close>.
\<close>

definition initializeGrid ::
  "(nat \<Rightarrow> int) \<Rightarrow> (nat \<Rightarrow> int) \<Rightarrow> (nat \<Rightarrow> nat \<Rightarrow> bool) \<Rightarrow> life \<Rightarrow> fault + life" where
  "initializeGrid floor03 floor07 random s =
     (let (h1, g) = new_rows (rows s) (cols s) (heap s);
          (h2, ng) = new_rows (rows s) (cols s) h1;
          s1 = s\<lparr>heap := h2, grid := g, nextGrid := ng\<rparr>;
          leftColumnEnd = floor03 (cols s1);
          rightColumnStart = floor07 (cols s1)
      in for_each [0..<rows s1] (\<lambda>i.
           for_each [0..<cols s1] (\<lambda>j s'.
             if int j < leftColumnEnd \<or> int j \<ge> rightColumnStart then
               write_cell s' (grid s') i j (random i j)
             else Inr s')) s1)"

definition countNeighbors :: "life \<Rightarrow> nat list \<Rightarrow> int \<Rightarrow> int \<Rightarrow> fault + nat" where
  "countNeighbors s g x y =
     for_each [-1, 0, 1] (\<lambda>i.
       for_each [-1, 0, 1] (\<lambda>j sum.
         if i = 0 \<and> j = 0 then Inr sum
         else
           (let col = js_rem (x + i + int (cols s)) (int (cols s));
                row = js_rem (y + j + int (rows s)) (int (rows s))
            in (case read_cell (heap s) g row col of
                  Inl e \<Rightarrow> Inl e
                | Inr alive \<Rightarrow> Inr (if alive then sum + 1 else sum))))) 0"

definition computeNextGeneration :: "life \<Rightarrow> fault + life" where
  "computeNextGeneration s =
     (case
        for_each [0..<rows s] (\<lambda>i.
          for_each [0..<cols s] (\<lambda>j s'.
            (case countNeighbors s' (grid s') (int j) (int i) of
               Inl e \<Rightarrow> Inl e
             | Inr neighbors \<Rightarrow>
                 (case read_cell (heap s') (grid s') (Some (int i)) (Some (int j)) of
                    Inl e \<Rightarrow> Inl e
                  | Inr currentCell \<Rightarrow>
                      if currentCell \<and> (neighbors < 2 \<or> neighbors > 3) then
                        write_cell s' (nextGrid s') i j False
                      else if \<not> currentCell \<and> neighbors = 3 then
                        write_cell s' (nextGrid s') i j True
                      else write_cell s' (nextGrid s') i j currentCell)))) s
      of
        Inl e \<Rightarrow> Inl e
      | Inr s' \<Rightarrow> Inr (s'\<lparr>grid := nextGrid s', nextGrid := grid s'\<rparr>))"

text \<open>
  \<open>handleResize\<close> and the \<open>onMount\<close> callback, as far as they touch the grid and the
  canvas size; drawing, the timer and the listener registration are left out.
  \<open>window.innerWidth\<close> and \<open>window.innerHeight\<close> are non-negative integers, for
  which \<open>Math.floor(a / cellSize)\<close> is \<open>a div cellSize\<close>.
\<close>

definition resize_canvas :: "life \<Rightarrow> life" where
  "resize_canvas s =
     (case canvas s of
        None \<Rightarrow> s
      | Some c \<Rightarrow>
          s\<lparr>canvas := Some (c\<lparr>width := cols s * cellSize, height := rows s * cellSize\<rparr>)\<rparr>)"

definition handleResize ::
  "(nat \<Rightarrow> int) \<Rightarrow> (nat \<Rightarrow> int) \<Rightarrow> (nat \<Rightarrow> nat \<Rightarrow> bool) \<Rightarrow> window \<Rightarrow> life \<Rightarrow> fault + life" where
  "handleResize floor03 floor07 random w s =
     (if \<not> browser s then Inr s
      else
        initializeGrid floor03 floor07 random
          (resize_canvas
             (s\<lparr>cols := innerWidth w div cellSize, rows := innerHeight w div cellSize\<rparr>)))"

definition onMount ::
  "(nat \<Rightarrow> int) \<Rightarrow> (nat \<Rightarrow> int) \<Rightarrow> (nat \<Rightarrow> nat \<Rightarrow> bool) \<Rightarrow> window \<Rightarrow> life \<Rightarrow> fault + life" where
  "onMount floor03 floor07 random w s =
     initializeGrid floor03 floor07 random
       (resize_canvas
          (s\<lparr>browser := True, cols := innerWidth w div cellSize,
             rows := innerHeight w div cellSize\<rparr>))"

text \<open>
  The shape that \<open>initializeGrid\<close> builds: both variables hold \<open>rows\<close> rows of
  \<open>cols\<close> cells, and no row array is shared, neither inside a grid nor between the
  two.
\<close>

definition grid_inv :: "life \<Rightarrow> bool" where
  "grid_inv s \<longleftrightarrow>
     length (grid s) = rows s \<and> length (nextGrid s) = rows s \<and>
     distinct (grid s @ nextGrid s) \<and>
     list_all (\<lambda>a. a < length (heap s) \<and> length (heap s ! a) = cols s)
       (grid s @ nextGrid s)"

definition cell :: "life \<Rightarrow> nat \<Rightarrow> nat \<Rightarrow> bool" where
  "cell s i j = heap s ! (grid s ! i) ! j"

section \<open>Invariants and concrete inputs\<close>

text \<open>
  What holds of the request ids in every reachable configuration: later ids are larger,
  no id exceeds the counter, and the calls in flight hold different issued ids.
\<close>

definition ids_inv :: "'m config \<Rightarrow> bool" where
  "ids_inv c \<longleftrightarrow>
     sorted_wrt (>) (issued c) \<and>
     list_all (\<lambda>r. r \<le> currentRequest (view c)) (issued c) \<and>
     distinct (inflight c) \<and> set (inflight c) \<subseteq> set (issued c)"

definition article_a :: article where
  "article_a =
     \<lparr>title = js ''A'', slug = js ''a'', download_url = Some (js ''https://a''),
      path = js ''a.md''\<rparr>"

definition article_b :: article where
  "article_b =
     \<lparr>title = js ''B'', slug = js ''b'', download_url = Some (js ''https://b''),
      path = js ''b.md''\<rparr>"

text \<open>A note with front matter, and a YAML parser that accepts and one that throws.\<close>

definition sample_markdown :: ustring where
  "sample_markdown = js ''---\<newline>title: Hi\<newline>---\<newline>\<newline>Body''"

definition yaml_ok :: "ustring \<Rightarrow> exn + yaml" where
  "yaml_ok s = Inr (YMap [(js ''title'', YPrimitive (js ''Hi''))])"

definition yaml_fails :: "ustring \<Rightarrow> exn + yaml" where
  "yaml_fails s = Inl (Error (js ''bad indentation''))"

text \<open>
  Front matter in the words of the specification. The opening \<open>---\<close> is followed by
  white space up to and including a line break. A text starts with a closing line when
  it is a line break (\<open>\n\<close> or \<open>\r\n\<close>), \<open>---\<close>, and then only white space up
  to a line break or to the end of the input.
\<close>

definition opens :: "ustring \<Rightarrow> bool" where
  "opens ws \<longleftrightarrow> ws \<noteq> [] \<and> list_all is_space ws \<and> is_line_break (last ws)"

definition closes :: "ustring \<Rightarrow> bool" where
  "closes t \<longleftrightarrow>
     (let u = (if take 1 t = [0x0D] then drop 1 t else t) in
      take 4 u = [0x0A, 0x2D, 0x2D, 0x2D] \<and>
      (dropWhile is_space (drop 4 u) = []
       \<or> list_ex is_line_break (takeWhile is_space (drop 4 u))))"

text \<open>
  A note whose body is indented and holds a second \<open>---\<close> line, a note whose block is
  plain text, and a parser that returns that text as a string.
\<close>

definition indented_markdown :: ustring where
  "indented_markdown = js ''---\<newline>\<newline>title: Hi\<newline>---\<newline>  Body\<newline>---\<newline>more''"

definition scalar_markdown :: ustring where
  "scalar_markdown = js ''---\<newline>Some intro\<newline>---\<newline>More''"

definition yaml_scalar :: "ustring \<Rightarrow> exn + yaml" where
  "yaml_scalar s = Inr (YPrimitive s)"

text \<open>
  The loader in the words of the specification: a name has a markdown extension when it
  ends in \<open>.md\<close> or \<open>.mdx\<close> in any mix of cases; the slug is the name without that
  extension; the title capitalises the chunks between hyphens and underscores.
\<close>

definition ascii_lower :: "uchar \<Rightarrow> uchar" where
  "ascii_lower c = (if 0x41 \<le> c \<and> c \<le> 0x5A then c + 0x20 else c)"

definition ends_with_ci :: "ustring \<Rightarrow> ustring \<Rightarrow> bool" where
  "ends_with_ci s ext \<longleftrightarrow>
     length ext \<le> length s \<and> map ascii_lower (drop (length s - length ext) s) = ext"

definition has_markdown_extension :: "ustring \<Rightarrow> bool" where
  "has_markdown_extension n \<longleftrightarrow> ends_with_ci n (js ''.md'') \<or> ends_with_ci n (js ''.mdx'')"

definition strip_extension :: "ustring \<Rightarrow> ustring" where
  "strip_extension n =
     (if ends_with_ci n (js ''.md'') then take (length n - 3) n
      else if ends_with_ci n (js ''.mdx'') then take (length n - 4) n
      else n)"

definition capitalize :: "(ustring \<Rightarrow> ustring) \<Rightarrow> ustring \<Rightarrow> ustring" where
  "capitalize toUpperCase chunk = toUpperCase (take 1 chunk) @ drop 1 chunk"

definition title_of :: "(ustring \<Rightarrow> ustring) \<Rightarrow> ustring \<Rightarrow> ustring" where
  "title_of toUpperCase n =
     join (js '' '')
       (map (capitalize toUpperCase)
          (split (\<lambda>c. c = 0x2D \<or> c = 0x5F) (strip_extension n)))"

definition to_article :: "(ustring \<Rightarrow> ustring) \<Rightarrow> github_file \<Rightarrow> article" where
  "to_article toUpperCase file =
     \<lparr>title = title_of toUpperCase (name file), slug = strip_extension (name file),
      download_url = github_file.download_url file, path = github_file.path file\<rparr>"

text \<open>The entries that the loader keeps.\<close>

definition listed :: "github_file \<Rightarrow> bool" where
  "listed file \<longleftrightarrow>
     type file = js ''file'' \<and> has_markdown_extension (name file)
     \<and> github_file.download_url file \<noteq> None \<and> github_file.download_url file \<noteq> Some []"

text \<open>A listing to run the loader on, and an upper-casing for ASCII letters.\<close>

definition ascii_upper :: "ustring \<Rightarrow> ustring" where
  "ascii_upper s = map (\<lambda>c. if 0x61 \<le> c \<and> c \<le> 0x7A then c - 0x20 else c) s"

definition file_note :: github_file where
  "file_note =
     \<lparr>name = js ''my-first_note.MD'', path = js ''my-first_note.MD'', type = js ''file'',
      download_url = Some (js ''https://raw/my-first_note.MD'')\<rparr>"

definition file_dir :: github_file where
  "file_dir = \<lparr>name = js ''img'', path = js ''img'', type = js ''dir'', download_url = None\<rparr>"

definition file_empty_url :: github_file where
  "file_empty_url =
     \<lparr>name = js ''a.md'', path = js ''a.md'', type = js ''file'', download_url = Some []\<rparr>"

text \<open>
  The grid in the words of the specification. The neighbours of the cell in column
  \<open>x\<close> and row \<open>y\<close> are the cells at the eight non-zero offsets, with indices
  taken modulo \<open>cols\<close> and \<open>rows\<close>; \<open>live_neighbours\<close> is the number of live cells
  among them, each cell counted once and the cell itself never. A cell of the next
  generation is alive when \<open>life_rule\<close> says so.
\<close>

definition offsets :: "(int \<times> int) list" where
  "offsets = [(-1, -1), (-1, 0), (-1, 1), (0, -1), (0, 1), (1, -1), (1, 0), (1, 1)]"

definition wrap :: "life \<Rightarrow> int \<Rightarrow> int \<Rightarrow> int \<times> int \<Rightarrow> nat \<times> nat" where
  "wrap s x y d = (nat ((x + fst d) mod int (cols s)), nat ((y + snd d) mod int (rows s)))"

definition neighbour_cells :: "life \<Rightarrow> int \<Rightarrow> int \<Rightarrow> (nat \<times> nat) list" where
  "neighbour_cells s x y = map (wrap s x y) offsets"

definition alive_at :: "life \<Rightarrow> nat list \<Rightarrow> nat \<times> nat \<Rightarrow> bool" where
  "alive_at s g p = heap s ! (g ! snd p) ! fst p"

definition live_neighbours :: "life \<Rightarrow> nat list \<Rightarrow> int \<Rightarrow> int \<Rightarrow> nat" where
  "live_neighbours s g x y =
     length (remdups (filter (\<lambda>p. p \<noteq> (nat x, nat y) \<and> alive_at s g p) (neighbour_cells s x y)))"

definition life_rule :: "bool \<Rightarrow> nat \<Rightarrow> bool" where
  "life_rule alive n \<longleftrightarrow> (if alive then n = 2 \<or> n = 3 else n = 3)"

definition next_cell :: "life \<Rightarrow> nat \<Rightarrow> nat \<Rightarrow> bool" where
  "next_cell s i j =
     life_rule (cell s i j)
       (length (filter (alive_at s (grid s)) (neighbour_cells s (int j) (int i))))"

text \<open>
  A grid argument of \<open>countNeighbors\<close> has the shape of the state; the grid fits the
  viewport when its size is the window's size in whole cells, the canvas included.
\<close>

definition well_formed :: "life \<Rightarrow> nat list \<Rightarrow> bool" where
  "well_formed s g \<longleftrightarrow>
     length g = rows s \<and> list_all (\<lambda>a. a < length (heap s) \<and> length (heap s ! a) = cols s) g"

definition canvas_fits :: "life \<Rightarrow> bool" where
  "canvas_fits s \<longleftrightarrow>
     (case canvas s of
        None \<Rightarrow> True
      | Some c \<Rightarrow> width c = cols s * cellSize \<and> height c = rows s * cellSize)"

definition viewport_inv :: "window \<Rightarrow> life \<Rightarrow> bool" where
  "viewport_inv w s \<longleftrightarrow>
     rows s = innerHeight w div cellSize \<and> cols s = innerWidth w div cellSize \<and>
     length (grid s) = rows s \<and> length (nextGrid s) = rows s \<and>
     list_all (\<lambda>a. length (heap s ! a) = cols s) (grid s @ nextGrid s) \<and>
     canvas_fits s"

text \<open>
  Loop invariants. \<open>allocated s\<close> is the state after the two grids are created and
  before the seeding loop; \<open>filled l r s t\<close> relates it to a later state of that loop,
  which has written only rows of \<open>grid\<close> and only columns outside \<open>[l, r)\<close>.
  \<open>stepping s t\<close> relates the state before a generation step to a state inside its
  loop, which has written only rows of \<open>nextGrid\<close>; \<open>done_upto s t i j\<close> says that
  the rows before \<open>i\<close>, and row \<open>i\<close> before column \<open>j\<close>, hold the next
  generation.
\<close>

definition allocated :: "life \<Rightarrow> life" where
  "allocated s =
     s\<lparr>heap := heap s @ replicate (rows s) (replicate (cols s) False)
                 @ replicate (rows s) (replicate (cols s) False),
       grid := [length (heap s)..<length (heap s) + rows s],
       nextGrid := [length (heap s) + rows s..<length (heap s) + rows s + rows s]\<rparr>"

definition filled :: "int \<Rightarrow> int \<Rightarrow> life \<Rightarrow> life \<Rightarrow> bool" where
  "filled l r s t \<longleftrightarrow>
     cols t = cols s \<and> rows t = rows s \<and> grid t = grid s \<and> nextGrid t = nextGrid s \<and>
     canvas t = canvas s \<and> browser t = browser s \<and> length (heap t) = length (heap s) \<and>
     (\<forall>a<length (heap s).
        length (heap t ! a) = length (heap s ! a) \<and>
        (a \<notin> set (grid s) \<longrightarrow> heap t ! a = heap s ! a) \<and>
        (\<forall>j<length (heap s ! a). l \<le> int j \<and> int j < r \<longrightarrow> heap t ! a ! j = heap s ! a ! j))"

definition stepping :: "life \<Rightarrow> life \<Rightarrow> bool" where
  "stepping s t \<longleftrightarrow>
     cols t = cols s \<and> rows t = rows s \<and> grid t = grid s \<and> nextGrid t = nextGrid s \<and>
     canvas t = canvas s \<and> browser t = browser s \<and> length (heap t) = length (heap s) \<and>
     (\<forall>a<length (heap s).
        length (heap t ! a) = length (heap s ! a) \<and>
        (a \<notin> set (nextGrid s) \<longrightarrow> heap t ! a = heap s ! a))"

definition done_upto :: "life \<Rightarrow> life \<Rightarrow> nat \<Rightarrow> nat \<Rightarrow> bool" where
  "done_upto s t i j \<longleftrightarrow>
     (\<forall>i'<rows s. \<forall>j'<cols s.
        i' < i \<or> (i' = i \<and> j' < j) \<longrightarrow> heap t ! (nextGrid s ! i') ! j' = next_cell s i' j')"

text \<open>States and windows to run the grid on.\<close>

definition lonely :: life where
  "lonely =
     \<lparr>cols = 1, rows = 1, heap = [[True], [False]], grid = [0], nextGrid = [1], canvas = None,
      browser = True\<rparr>"

definition narrow :: life where
  "narrow =
     \<lparr>cols = 1, rows = 3, heap = [[True], [False], [False], [False], [False], [False]],
      grid = [0, 1, 2], nextGrid = [3, 4, 5], canvas = None, browser = True\<rparr>"

definition blinker :: life where
  "blinker =
     \<lparr>cols = 3, rows = 3,
      heap = [[False, True, False], [False, True, False], [False, True, False],
              [False, False, False], [False, False, False], [False, False, False]],
      grid = [0, 1, 2], nextGrid = [3, 4, 5], canvas = None, browser = True\<rparr>"

definition tenths3 :: "nat \<Rightarrow> int" where
  "tenths3 c = int (c * 3 div 10)"

definition tenths7 :: "nat \<Rightarrow> int" where
  "tenths7 c = int (c * 7 div 10)"

definition all_alive :: "nat \<Rightarrow> nat \<Rightarrow> bool" where
  "all_alive i j = True"

definition small_window :: window where
  "small_window = \<lparr>innerWidth = 155, innerHeight = 50\<rparr>"

definition one_cell_window :: window where
  "one_cell_window = \<lparr>innerWidth = 20, innerHeight = 15\<rparr>"

section \<open>The request counter\<close>

lemma run_snoc: "run b (es @ [e]) = step b (run b es) e"
  by (simp add: run_def)

lemma currentRequest_resume [simp]:
  "currentRequest (selectArticle_resume r out v) = currentRequest v"
  by (simp add: selectArticle_resume_def Let_def split: sum.splits exn.splits prod.splits)

lemma ids_inv_step: "ids_inv c \<Longrightarrow> ids_inv (step b c e)"
proof (cases e)
  case (Select a)
  assume "ids_inv c"
  then show ?thesis using Select
    by (fastforce simp: ids_inv_def selectArticle_start_def Let_def list_all_iff)
next
  case (Resume r out)
  assume "ids_inv c"
  then show ?thesis using Resume
    by (auto simp: ids_inv_def list_all_iff dest: notin_set_remove1)
qed

lemma ids_inv_run: "ids_inv (run b es)"
proof (induction es rule: rev_induct)
  case Nil
  show ?case by (simp add: run_def ids_inv_def initial_config_def)
next
  case (snoc e es)
  then show ?case by (simp add: run_snoc ids_inv_step)
qed

lemma at_most_one_latest: "distinct xs \<Longrightarrow> length (filter (\<lambda>r. r = k) xs) \<le> 1"
  by (induction xs) (auto simp: filter_empty_conv)

text \<open>
  C4. After any sequence of selections and resumptions, a call of \<open>selectArticle\<close>
  that gets past its guard (in the browser, with a download URL) raises
  \<open>currentRequest\<close> by exactly one and captures the new value, which is larger than
  every id issued before; a call stopped by the guard changes nothing, and a resumption
  never changes the counter. So the issued ids are strictly increasing, and at most one
  call in flight holds the id equal to \<open>currentRequest\<close>, the only one whose result
  the guards accept.
\<close>

theorem request_ids_increase:
  "(b \<and> truthy (download_url a) \<longrightarrow>
      currentRequest (view (step b (run b es) (Select a)))
        = currentRequest (view (run b es)) + 1
      \<and> issued (step b (run b es) (Select a))
          = currentRequest (view (step b (run b es) (Select a))) # issued (run b es)
      \<and> inflight (step b (run b es) (Select a))
          = currentRequest (view (step b (run b es) (Select a))) # inflight (run b es)
      \<and> list_all (\<lambda>r. r < currentRequest (view (step b (run b es) (Select a))))
          (issued (run b es)))
   \<and> (\<not> (b \<and> truthy (download_url a)) \<longrightarrow> step b (run b es) (Select a) = run b es)
   \<and> currentRequest (view (step b (run b es) (Resume r out)))
       = currentRequest (view (run b es))
   \<and> sorted_wrt (>) (issued (run b es))
   \<and> length (filter (\<lambda>r. r = currentRequest (view (run b es))) (inflight (run b es))) \<le> 1"
proof -
  have inv: "ids_inv (run b es)" by (rule ids_inv_run)
  have "list_all (\<lambda>r. r < currentRequest (view (run b es)) + 1) (issued (run b es))"
    using inv by (auto simp: ids_inv_def list_all_iff)
  moreover have
    "length (filter (\<lambda>r. r = currentRequest (view (run b es))) (inflight (run b es))) \<le> 1"
    using inv at_most_one_latest [of "inflight (run b es)"] by (simp add: ids_inv_def)
  moreover have "sorted_wrt (>) (issued (run b es))"
    using inv by (simp add: ids_inv_def)
  ultimately show ?thesis
    by (cases b) (simp_all add: selectArticle_start_def Let_def)
qed

theorem request_ids_increase_witness:
  "True \<and> truthy (download_url article_a) \<and>
   currentRequest
     (view (step True (run True [Select article_a, Select article_b :: unit event])
        (Select article_a))) = 3
   \<and> inflight (step True (run True [Select article_a, Select article_b :: unit event])
        (Select article_a)) = [3, 2, 1]"
  using request_ids_increase [of True article_a "[Select article_a, Select article_b]"]
  by (simp add: run_def initial_config_def initial_view_def selectArticle_start_def
      truthy_def article_a_def article_b_def js_def)

section \<open>Stale responses\<close>

lemma stale_resume_keeps_guarded_fields:
  "requestId \<noteq> currentRequest v \<Longrightarrow>
     renderedHtml (selectArticle_resume requestId out v) = renderedHtml v
     \<and> activeMeta (selectArticle_resume requestId out v) = activeMeta v
     \<and> isLoading (selectArticle_resume requestId out v) = isLoading v
     \<and> activeSlug (selectArticle_resume requestId out v) = activeSlug v"
  by (simp add: selectArticle_resume_def Let_def split: sum.splits exn.splits prod.splits)

text \<open>
  C3. A stale response must not overwrite what the latest selection shows. The success
  path and the \<open>finally\<close> block compare the captured id with \<open>currentRequest\<close>
  (lemma \<open>stale_resume_keeps_guarded_fields\<close>), but the \<open>catch\<close> block assigns
  \<open>errorMessage\<close> without that comparison. Here article A is selected, then article
  B; B's response arrives and is rendered; then A's fetch fails. The view ends with B's
  HTML, \<open>isLoading = false\<close> and A's error message, so the panel shows the error of
  the stale request instead of the article of the latest one.
\<close>

theorem stale_failure_overwrites_errorMessage:
  "view (run True [Select article_a, Select article_b,
                   Resume 2 (Inr (js ''<p>B</p>'', None)),
                   Resume 1 (Inl (Error (js ''Unable to fetch the selected article.'')))])
   = \<lparr>activeSlug = Some (js ''b''), renderedHtml = js ''<p>B</p>'', isLoading = False,
      errorMessage = js ''Unable to fetch the selected article.'', currentRequest = 2,
      activeMeta = (None :: unit option)\<rparr>
   \<and> content_panel [article_a, article_b]
       (view (run True [Select article_a, Select article_b,
                        Resume 2 (Inr (js ''<p>B</p>'', (None :: unit option))),
                        Resume 1 (Inl (Error (js ''Unable to fetch the selected article.'')))]))
     = ErrorText (js ''Unable to fetch the selected article.'')"
  by (simp add: run_def initial_config_def initial_view_def selectArticle_start_def
      selectArticle_resume_def truthy_def article_a_def article_b_def js_def
      content_panel_def)

section \<open>Front matter: what the pattern matches\<close>

lemma line_break_is_space: "is_line_break c \<Longrightarrow> is_space c"
  by (auto simp: is_line_break_def is_space_def)

lemma in_cls_Space: "in_cls Space = is_space"
  by (rule ext) simp

lemma in_cls_LineBreak: "in_cls LineBreak = is_line_break"
  by (rule ext) simp

lemma rx_match_Seq_iff:
  "r \<in> set (rx_match (Seq a b) s) \<longleftrightarrow> (\<exists>u\<in>set (rx_match a s). r \<in> set (rx_match b u))"
  by simp

lemma star_greedy_sound:
  "r \<in> set (star_greedy c s) \<Longrightarrow> \<exists>p. s = p @ r \<and> list_all (in_cls c) p"
proof (induction s)
  case Nil
  then show ?case by simp
next
  case (Cons x xs)
  show ?case
  proof (cases "r = x # xs")
    case True
    then show ?thesis by simp
  next
    case False
    with Cons.prems have "in_cls c x" and "r \<in> set (star_greedy c xs)"
      by (auto split: if_splits)
    with Cons.IH obtain p where "xs = p @ r" "list_all (in_cls c) p" by blast
    then have "x # xs = (x # p) @ r \<and> list_all (in_cls c) (x # p)"
      using \<open>in_cls c x\<close> by simp
    then show ?thesis by blast
  qed
qed

lemma star_lazy_sound:
  "r \<in> set (star_lazy c s) \<Longrightarrow> \<exists>p. s = p @ r \<and> list_all (in_cls c) p"
proof (induction s)
  case Nil
  then show ?case by simp
next
  case (Cons x xs)
  show ?case
  proof (cases "r = x # xs")
    case True
    then show ?thesis by simp
  next
    case False
    with Cons.prems have "in_cls c x" and "r \<in> set (star_lazy c xs)"
      by (auto split: if_splits)
    with Cons.IH obtain p where "xs = p @ r" "list_all (in_cls c) p" by blast
    then have "x # xs = (x # p) @ r \<and> list_all (in_cls c) (x # p)"
      using \<open>in_cls c x\<close> by simp
    then show ?thesis by blast
  qed
qed

lemma plus_sound:
  assumes "r \<in> set (rx_match (Plus c) s)"
  shows "\<exists>p. s = p @ r \<and> p \<noteq> [] \<and> list_all (in_cls c) p"
proof (cases s)
  case Nil
  with assms show ?thesis by simp
next
  case (Cons x xs)
  with assms have "in_cls c x" and "r \<in> set (star_greedy c xs)"
    by (auto split: if_splits)
  then obtain p where "xs = p @ r" "list_all (in_cls c) p"
    using star_greedy_sound by blast
  then have "s = (x # p) @ r \<and> x # p \<noteq> [] \<and> list_all (in_cls c) (x # p)"
    using Cons \<open>in_cls c x\<close> by simp
  then show ?thesis by blast
qed

lemma rx_match_lit:
  "rx_match (lit l k) s = (if take (length l) s = l then rx_match k (drop (length l) s) else [])"
proof (induction l arbitrary: s)
  case Nil
  show ?case by simp
next
  case (Cons c cs)
  show ?case
  proof (cases s)
    case Nil
    then show ?thesis by simp
  next
    case (Cons x xs)
    then show ?thesis using Cons.IH [of xs] by auto
  qed
qed

lemma rx_match_lit_iff:
  "r \<in> set (rx_match (lit l k) s) \<longleftrightarrow>
     take (length l) s = l \<and> r \<in> set (rx_match k (drop (length l) s))"
  by (simp add: rx_match_lit)

lemma front_matter_open_sound:
  assumes "r \<in> set (rx_match FRONT_MATTER_OPEN s)"
  shows "\<exists>opener. s = js ''---'' @ opener @ r \<and> opener \<noteq> []
           \<and> list_all is_space opener \<and> is_line_break (last opener)"
proof -
  let ?k = "Seq (Star Space) (Plus LineBreak)"
  have len: "length (js ''---'') = 3" by (simp add: js_def)
  from assms have "take 3 s = js ''---'' \<and> r \<in> set (rx_match ?k (drop 3 s))"
    unfolding FRONT_MATTER_OPEN_def rx_match_lit_iff len .
  then have pre: "take 3 s = js ''---''" and r: "r \<in> set (rx_match ?k (drop 3 s))"
    by blast+
  from r obtain t where t: "t \<in> set (star_greedy Space (drop 3 s))"
    and rt: "r \<in> set (rx_match (Plus LineBreak) t)"
    unfolding rx_match_Seq_iff by auto
  from star_greedy_sound [OF t] obtain ws where ws: "drop 3 s = ws @ t" "list_all is_space ws"
    unfolding in_cls_Space by blast
  from plus_sound [OF rt] obtain nl where nl: "t = nl @ r" "nl \<noteq> []" "list_all is_line_break nl"
    unfolding in_cls_LineBreak by blast
  have "s = take 3 s @ drop 3 s" by simp
  then have "s = js ''---'' @ (ws @ nl) @ r" using pre ws nl by simp
  moreover have "list_all is_space (ws @ nl)"
    using ws nl by (auto simp: list_all_iff line_break_is_space)
  moreover have "is_line_break (last (ws @ nl))"
    using nl by (simp add: list_all_iff)
  ultimately show ?thesis using nl(2) by blast
qed

lemma front_matter_close_sound:
  assumes "r \<in> set (rx_match FRONT_MATTER_CLOSE s)"
  shows "\<exists>closer trailing. s = closer @ js ''---'' @ trailing @ r
           \<and> (closer = [0x0A] \<or> closer = [0x0D, 0x0A])
           \<and> list_all is_space trailing
           \<and> (r = [] \<or> (trailing \<noteq> [] \<and> is_line_break (last trailing)))"
proof -
  let ?tail = "Seq (Star Space) (Alt (Plus LineBreak) EndOfInput)"
  let ?l = "[0x0A, 0x2D, 0x2D, 0x2D] :: ustring"
  from assms obtain u where u: "u \<in> set (rx_match (Opt (Ch (OneOf [0x0D]))) s)"
    and ru: "r \<in> set (rx_match (lit ?l ?tail) u)"
    unfolding FRONT_MATTER_CLOSE_def rx_match_Seq_iff by blast
  from u have su: "s = u \<or> s = 0x0D # u"
    by (cases s) (auto split: if_splits)
  have len4: "length ?l = 4" by simp
  from ru have "take 4 u = ?l \<and> r \<in> set (rx_match ?tail (drop 4 u))"
    unfolding rx_match_lit_iff len4 .
  then have pre: "take 4 u = ?l" and r: "r \<in> set (rx_match ?tail (drop 4 u))"
    by blast+
  from r obtain t where t: "t \<in> set (star_greedy Space (drop 4 u))"
    and rt: "r \<in> set (rx_match (Alt (Plus LineBreak) EndOfInput) t)"
    unfolding rx_match_Seq_iff by auto
  from star_greedy_sound [OF t] obtain ws where ws: "drop 4 u = ws @ t" "list_all is_space ws"
    unfolding in_cls_Space by blast
  have "u = take 4 u @ drop 4 u" by simp
  then have u_eq: "u = [0x0A] @ js ''---'' @ ws @ t" using pre ws by (simp add: js_def)
  from rt consider (plus) "r \<in> set (rx_match (Plus LineBreak) t)" | (eoi) "t = []" "r = []"
    by (auto split: if_splits)
  then have "\<exists>trailing. ws @ t = trailing @ r \<and> list_all is_space trailing
                \<and> (r = [] \<or> (trailing \<noteq> [] \<and> is_line_break (last trailing)))"
  proof cases
    case plus
    from plus_sound [OF plus] obtain nl where nl: "t = nl @ r" "nl \<noteq> []" "list_all is_line_break nl"
      unfolding in_cls_LineBreak by blast
    have "ws @ t = (ws @ nl) @ r" using nl by simp
    moreover have "list_all is_space (ws @ nl)"
      using ws nl by (auto simp: list_all_iff line_break_is_space)
    moreover have "ws @ nl \<noteq> [] \<and> is_line_break (last (ws @ nl))"
      using nl by (simp add: list_all_iff)
    ultimately show ?thesis by blast
  next
    case eoi
    then show ?thesis using ws by auto
  qed
  then obtain trailing where tr: "ws @ t = trailing @ r" "list_all is_space trailing"
    "r = [] \<or> (trailing \<noteq> [] \<and> is_line_break (last trailing))" by blast
  from su show ?thesis
  proof
    assume "s = u"
    then have "s = [0x0A] @ js ''---'' @ trailing @ r" using u_eq tr(1) by simp
    then show ?thesis using tr(2,3) by blast
  next
    assume "s = 0x0D # u"
    then have "s = [0x0D, 0x0A] @ js ''---'' @ trailing @ r" using u_eq tr(1) by simp
    then show ?thesis using tr(2,3) by blast
  qed
qed

lemma front_matter_pattern_sound:
  assumes "(fullMatch, rawFrontMatter) \<in> set (FRONT_MATTER_PATTERN markdown)"
  shows "\<exists>opener closer trailing rest.
           markdown = fullMatch @ rest
           \<and> fullMatch = js ''---'' @ opener @ rawFrontMatter @ closer @ js ''---'' @ trailing
           \<and> opener \<noteq> [] \<and> list_all is_space opener \<and> is_line_break (last opener)
           \<and> (closer = [0x0A] \<or> closer = [0x0D, 0x0A])
           \<and> list_all is_space trailing
           \<and> (rest = [] \<or> (trailing \<noteq> [] \<and> is_line_break (last trailing)))"
proof -
  from assms obtain r1 r2 r3 where
    r1: "r1 \<in> set (rx_match FRONT_MATTER_OPEN markdown)" and
    r2: "r2 \<in> set (star_lazy AnyChar r1)" and
    r3: "r3 \<in> set (rx_match FRONT_MATTER_CLOSE r2)" and
    full: "fullMatch = take (length markdown - length r3) markdown" and
    raw: "rawFrontMatter = take (length r1 - length r2) r1"
    by (auto simp: FRONT_MATTER_PATTERN_def)
  from front_matter_open_sound [OF r1] obtain opener where
    opn: "markdown = js ''---'' @ opener @ r1" "opener \<noteq> []" "list_all is_space opener"
      "is_line_break (last opener)" by blast
  from star_lazy_sound [OF r2] obtain p where p: "r1 = p @ r2" by blast
  then have raw': "rawFrontMatter = p" using raw by simp
  from front_matter_close_sound [OF r3] obtain closer trailing where
    cl: "r2 = closer @ js ''---'' @ trailing @ r3" "closer = [0x0A] \<or> closer = [0x0D, 0x0A]"
      "list_all is_space trailing" "r3 = [] \<or> (trailing \<noteq> [] \<and> is_line_break (last trailing))"
    by blast
  have md: "markdown = (js ''---'' @ opener @ rawFrontMatter @ closer @ js ''---'' @ trailing) @ r3"
    using opn(1) p raw' cl(1) by simp
  then have "fullMatch = js ''---'' @ opener @ rawFrontMatter @ closer @ js ''---'' @ trailing"
    using full by (metis append_eq_conv_conj diff_add_inverse2 length_append)
  then show ?thesis using md opn(2,3,4) cl(2,3,4) by blast
qed

lemma match_front_matter_in:
  "match_front_matter markdown = Some m \<Longrightarrow> m \<in> set (FRONT_MATTER_PATTERN markdown)"
  by (auto simp: match_front_matter_def split: list.splits)

lemma trimStart_dashes: "startsWith (trimStart (js ''---'' @ s)) (js ''---'')"
  by (simp add: trimStart_def startsWith_def js_def is_space_def)

lemma star_greedy_self: "s \<in> set (star_greedy c s)"
  by (cases s) auto

lemma star_greedy_complete: "list_all (in_cls c) p \<Longrightarrow> r \<in> set (star_greedy c (p @ r))"
  by (induction p) (auto simp: star_greedy_self)

lemma star_lazy_self: "s \<in> set (star_lazy c s)"
  by (cases s) auto

lemma star_lazy_complete: "list_all (in_cls c) p \<Longrightarrow> r \<in> set (star_lazy c (p @ r))"
  by (induction p) (auto simp: star_lazy_self)

lemma plus_complete:
  "p \<noteq> [] \<Longrightarrow> list_all (in_cls c) p \<Longrightarrow> r \<in> set (rx_match (Plus c) (p @ r))"
  by (cases p) (auto simp: star_greedy_complete)

lemma spaces_then_line_breaks:
  assumes "ws \<noteq> []" "list_all is_space ws" "is_line_break (last ws)"
  shows "r \<in> set (rx_match (Seq (Star Space) (Plus LineBreak)) (ws @ r))"
proof -
  have split: "ws @ r = butlast ws @ ([last ws] @ r)" using assms(1) by simp
  have "list_all (in_cls Space) (butlast ws)"
    using assms(2) by (auto simp: list_all_iff in_cls_Space dest: in_set_butlastD)
  then have "[last ws] @ r \<in> set (star_greedy Space (ws @ r))"
    unfolding split by (rule star_greedy_complete)
  then have "[last ws] @ r \<in> set (rx_match (Star Space) (ws @ r))"
    by simp
  moreover have "r \<in> set (rx_match (Plus LineBreak) ([last ws] @ r))"
    using assms(3) by (intro plus_complete) simp_all
  ultimately show ?thesis unfolding rx_match_Seq_iff by blast
qed

lemma rx_match_lit_append:
  "r \<in> set (rx_match k s) \<Longrightarrow> r \<in> set (rx_match (lit l k) (l @ s))"
  by (simp add: rx_match_lit_iff)

lemma in_nested_concat:
  "a \<in> set as \<Longrightarrow> b \<in> set (bs a) \<Longrightarrow> c \<in> set (cs b) \<Longrightarrow>
     h a b c \<in> set (concat (map (\<lambda>a. concat (map (\<lambda>b. map (h a b) (cs b)) (bs a))) as))"
  by auto

lemma front_matter_pattern_complete:
  assumes "markdown = js ''---'' @ opener @ raw @ closer @ js ''---'' @ trailing @ rest"
    and "opener \<noteq> []" "list_all is_space opener" "is_line_break (last opener)"
    and "closer = [0x0A] \<or> closer = [0x0D, 0x0A]"
    and "list_all is_space trailing"
    and "rest = [] \<or> (trailing \<noteq> [] \<and> is_line_break (last trailing))"
  shows "match_front_matter markdown \<noteq> None"
proof -
  let ?r2 = "closer @ js ''---'' @ trailing @ rest"
  let ?r1 = "raw @ ?r2"
  have len: "length (js ''---'') = 3" by (simp add: js_def)
  have "?r1 \<in> set (rx_match (Seq (Star Space) (Plus LineBreak)) (opener @ ?r1))"
    using assms(2-4) by (rule spaces_then_line_breaks)
  then have r1: "?r1 \<in> set (rx_match FRONT_MATTER_OPEN markdown)"
    unfolding FRONT_MATTER_OPEN_def assms(1) by (rule rx_match_lit_append)
  have r2: "?r2 \<in> set (star_lazy AnyChar ?r1)"
    by (rule star_lazy_complete) (simp add: list_all_iff)
  have tail: "rest \<in> set (rx_match (Seq (Star Space) (Alt (Plus LineBreak) EndOfInput))
                 (trailing @ rest))"
  proof (cases "rest = []")
    case True
    have "[] \<in> set (star_greedy Space (trailing @ []))"
      using assms(6) by (intro star_greedy_complete) (simp add: in_cls_Space)
    then have "[] \<in> set (rx_match (Star Space) (trailing @ rest))"
      using True by simp
    moreover have "rest \<in> set (rx_match (Alt (Plus LineBreak) EndOfInput) [])"
      using True by simp
    ultimately show ?thesis unfolding rx_match_Seq_iff by blast
  next
    case False
    with assms(7) have "trailing \<noteq> []" "is_line_break (last trailing)" by auto
    with assms(6) have "rest \<in> set (rx_match (Seq (Star Space) (Plus LineBreak)) (trailing @ rest))"
      by (intro spaces_then_line_breaks)
    then obtain u where "u \<in> set (rx_match (Star Space) (trailing @ rest))"
      "rest \<in> set (rx_match (Plus LineBreak) u)"
      unfolding rx_match_Seq_iff by blast
    moreover from this(2) have "rest \<in> set (rx_match (Alt (Plus LineBreak) EndOfInput) u)"
      by (simp only: rx_match.simps set_append Un_iff) blast
    ultimately show ?thesis unfolding rx_match_Seq_iff by blast
  qed
  let ?l = "[0x0A, 0x2D, 0x2D, 0x2D] :: ustring"
  have len4: "length ?l = 4" by simp
  have l_eq: "[0x0A] @ js ''---'' @ trailing @ rest = ?l @ (trailing @ rest)"
    by (simp add: js_def)
  have "rest \<in> set (rx_match (lit ?l (Seq (Star Space) (Alt (Plus LineBreak) EndOfInput)))
           ([0x0A] @ js ''---'' @ trailing @ rest))"
    unfolding l_eq using tail by (rule rx_match_lit_append)
  moreover have "[0x0A] @ js ''---'' @ trailing @ rest \<in> set (rx_match (Opt (Ch (OneOf [0x0D]))) ?r2)"
    using assms(5) by auto
  ultimately have r3: "rest \<in> set (rx_match FRONT_MATTER_CLOSE ?r2)"
    unfolding FRONT_MATTER_CLOSE_def rx_match_Seq_iff by blast
  have r2': "?r2 \<in> set (rx_match (LazyStar AnyChar) ?r1)"
    using r2 by simp
  have "(take (length markdown - length rest) markdown, take (length ?r1 - length ?r2) ?r1)
          \<in> set (FRONT_MATTER_PATTERN markdown)"
    unfolding FRONT_MATTER_PATTERN_def
    by (rule in_nested_concat
        [where h = "\<lambda>r1 r2 r3. (take (length markdown - length r3) markdown,
                                  take (length r1 - length r2) r1)"
           and bs = "rx_match (LazyStar AnyChar)" and cs = "rx_match FRONT_MATTER_CLOSE",
         OF r1 r2' r3])
  then have "FRONT_MATTER_PATTERN markdown \<noteq> []" by auto
  then show ?thesis by (simp add: match_front_matter_def split: list.splits)
qed

lemma sample_markdown_match:
  "match_front_matter sample_markdown = Some (js ''---\<newline>title: Hi\<newline>---\<newline>\<newline>'', js ''title: Hi'')"
  by (simp add: sample_markdown_def match_front_matter_def FRONT_MATTER_PATTERN_def
      FRONT_MATTER_OPEN_def FRONT_MATTER_CLOSE_def js_def is_space_def is_line_break_def)

lemma match_front_matter_starts:
  assumes "match_front_matter markdown = Some (fullMatch, rawFrontMatter)"
  shows "startsWith (trimStart markdown) (js ''---'')"
proof -
  from front_matter_pattern_sound [OF match_front_matter_in [OF assms]]
  obtain opener closer trailing rest where
    "markdown = fullMatch @ rest"
    "fullMatch = js ''---'' @ opener @ rawFrontMatter @ closer @ js ''---'' @ trailing"
    by blast
  then have "markdown = js ''---'' @ (opener @ rawFrontMatter @ closer @ js ''---'' @ trailing @ rest)"
    by simp
  then show ?thesis using trimStart_dashes by metis
qed

text \<open>
  C6. When the pattern matches and js-yaml throws on the captured block,
  \<open>parseFrontMatter\<close> returns the raw markdown unchanged as content, no metadata,
  and has logged the error: the exception stops in the \<open>catch\<close> block and no text
  is lost.
\<close>

theorem parseFrontMatter_yaml_error:
  assumes "match_front_matter markdown = Some (fullMatch, rawFrontMatter)"
    and "parseYaml rawFrontMatter = Inl e"
  shows "parseFrontMatter parseYaml markdown
           = (\<lparr>content = markdown, data = None\<rparr>,
              [(js ''Could not parse front matter'', LogExn e)])"
  using match_front_matter_starts [OF assms(1)] assms
  by (simp add: parseFrontMatter_def)

theorem parseFrontMatter_yaml_error_witness:
  "match_front_matter sample_markdown
     = Some (js ''---\<newline>title: Hi\<newline>---\<newline>\<newline>'', js ''title: Hi'')
   \<and> yaml_fails (js ''title: Hi'') = Inl (Error (js ''bad indentation''))
   \<and> parseFrontMatter yaml_fails sample_markdown
       = (\<lparr>content = sample_markdown, data = None\<rparr>,
          [(js ''Could not parse front matter'', LogExn (Error (js ''bad indentation'')))])"
proof -
  have y: "yaml_fails (js ''title: Hi'') = Inl (Error (js ''bad indentation''))"
    by (simp add: yaml_fails_def)
  show ?thesis
    using parseFrontMatter_yaml_error [where parseYaml = yaml_fails, OF sample_markdown_match y]
      sample_markdown_match y
    by blast
qed

lemma front_matter_close_complete:
  assumes "closer = [0x0A] \<or> closer = [0x0D, 0x0A]"
    and "list_all is_space trailing"
    and "rest = [] \<or> (trailing \<noteq> [] \<and> is_line_break (last trailing))"
  shows "rest \<in> set (rx_match FRONT_MATTER_CLOSE (closer @ js ''---'' @ trailing @ rest))"
proof -
  have tail: "rest \<in> set (rx_match (Seq (Star Space) (Alt (Plus LineBreak) EndOfInput))
                 (trailing @ rest))"
  proof (cases "rest = []")
    case True
    have "[] \<in> set (star_greedy Space (trailing @ []))"
      using assms(2) by (intro star_greedy_complete) (simp add: in_cls_Space)
    then have "[] \<in> set (rx_match (Star Space) (trailing @ rest))"
      using True by simp
    moreover have "rest \<in> set (rx_match (Alt (Plus LineBreak) EndOfInput) [])"
      using True by simp
    ultimately show ?thesis unfolding rx_match_Seq_iff by blast
  next
    case False
    with assms(3) have "trailing \<noteq> []" "is_line_break (last trailing)" by auto
    with assms(2) have "rest \<in> set (rx_match (Seq (Star Space) (Plus LineBreak)) (trailing @ rest))"
      by (intro spaces_then_line_breaks)
    then obtain u where "u \<in> set (rx_match (Star Space) (trailing @ rest))"
      "rest \<in> set (rx_match (Plus LineBreak) u)"
      unfolding rx_match_Seq_iff by blast
    moreover from this(2) have "rest \<in> set (rx_match (Alt (Plus LineBreak) EndOfInput) u)"
      by (simp only: rx_match.simps set_append Un_iff) blast
    ultimately show ?thesis unfolding rx_match_Seq_iff by blast
  qed
  let ?l = "[0x0A, 0x2D, 0x2D, 0x2D] :: ustring"
  have l_eq: "[0x0A] @ js ''---'' @ trailing @ rest = ?l @ (trailing @ rest)"
    by (simp add: js_def)
  have "rest \<in> set (rx_match (lit ?l (Seq (Star Space) (Alt (Plus LineBreak) EndOfInput)))
           ([0x0A] @ js ''---'' @ trailing @ rest))"
    unfolding l_eq using tail by (rule rx_match_lit_append)
  moreover have "[0x0A] @ js ''---'' @ trailing @ rest
      \<in> set (rx_match (Opt (Ch (OneOf [0x0D]))) (closer @ js ''---'' @ trailing @ rest))"
    using assms(1) by auto
  ultimately show ?thesis
    unfolding FRONT_MATTER_CLOSE_def rx_match_Seq_iff by blast
qed

lemma closes_shape:
  "closes t \<longleftrightarrow>
     (\<exists>closer trailing rest. t = closer @ js ''---'' @ trailing @ rest
        \<and> (closer = [0x0A] \<or> closer = [0x0D, 0x0A])
        \<and> list_all is_space trailing
        \<and> (rest = [] \<or> (trailing \<noteq> [] \<and> is_line_break (last trailing))))"
  (is "_ \<longleftrightarrow> ?shape")
proof
  assume c: "closes t"
  define u where "u = (if take 1 t = [0x0D] then drop 1 t else t)"
  define v where "v = drop 4 u"
  from c have u4: "take 4 u = [0x0A, 0x2D, 0x2D, 0x2D]"
    and v: "dropWhile is_space v = [] \<or> list_ex is_line_break (takeWhile is_space v)"
    by (simp_all add: closes_def u_def v_def Let_def)
  have "u = take 4 u @ drop 4 u" by simp
  then have u_eq: "u = [0x0A] @ js ''---'' @ v" using u4 by (simp add: v_def js_def)
  have "t = u \<or> t = [0x0D] @ u"
    by (cases t) (auto simp: u_def)
  then obtain closer where closer: "t = closer @ js ''---'' @ v"
    "closer = [0x0A] \<or> closer = [0x0D, 0x0A]"
    using u_eq by auto
  from v have "\<exists>trailing rest. v = trailing @ rest \<and> list_all is_space trailing
                  \<and> (rest = [] \<or> (trailing \<noteq> [] \<and> is_line_break (last trailing)))"
  proof
    assume "dropWhile is_space v = []"
    then have "list_all is_space v" by (simp add: list_all_iff)
    then have "v = v @ [] \<and> list_all is_space v" by simp
    then show ?thesis by blast
  next
    assume "list_ex is_line_break (takeWhile is_space v)"
    then obtain lb where "lb \<in> set (takeWhile is_space v)" "is_line_break lb"
      by (auto simp: list_ex_iff)
    then obtain a b where ab: "takeWhile is_space v = a @ lb # b" by (auto dest: split_list)
    have sp: "list_all is_space (takeWhile is_space v)"
      by (auto simp: list_all_iff dest: set_takeWhileD)
    have "v = (a @ [lb]) @ (b @ dropWhile is_space v)"
      using takeWhile_dropWhile_id [of is_space v] ab by simp
    moreover have "list_all is_space (a @ [lb])" using sp ab by simp
    moreover have "a @ [lb] \<noteq> [] \<and> is_line_break (last (a @ [lb]))"
      using \<open>is_line_break lb\<close> by simp
    ultimately show ?thesis by blast
  qed
  then show ?shape using closer by blast
next
  assume ?shape
  then obtain closer trailing rest where
    t: "t = closer @ js ''---'' @ trailing @ rest"
    and cl: "closer = [0x0A] \<or> closer = [0x0D, 0x0A]"
    and tr: "list_all is_space trailing"
    and re: "rest = [] \<or> (trailing \<noteq> [] \<and> is_line_break (last trailing))" by blast
  have u: "(if take 1 t = [0x0D] then drop 1 t else t) = [0x0A, 0x2D, 0x2D, 0x2D] @ trailing @ rest"
    using cl t by (auto simp: js_def)
  have "dropWhile is_space (trailing @ rest) = []
        \<or> list_ex is_line_break (takeWhile is_space (trailing @ rest))"
  proof (cases "rest = []")
    case True
    then show ?thesis using tr by (simp add: list_all_iff)
  next
    case False
    with re have ne: "trailing \<noteq> []" "is_line_break (last trailing)" by auto
    have "takeWhile is_space (trailing @ rest) = trailing @ takeWhile is_space rest"
      using tr by (simp add: list_all_iff takeWhile_append2)
    moreover have "last trailing \<in> set trailing" using ne(1) by simp
    ultimately show ?thesis using ne(2) by (auto simp: list_ex_iff)
  qed
  then show "closes t" unfolding closes_def u by simp
qed

lemma closes_iff_match: "closes t \<longleftrightarrow> rx_match FRONT_MATTER_CLOSE t \<noteq> []"
proof
  assume "closes t"
  then obtain closer trailing rest where
    "t = closer @ js ''---'' @ trailing @ rest" "closer = [0x0A] \<or> closer = [0x0D, 0x0A]"
    "list_all is_space trailing" "rest = [] \<or> (trailing \<noteq> [] \<and> is_line_break (last trailing))"
    unfolding closes_shape by blast
  then have "rest \<in> set (rx_match FRONT_MATTER_CLOSE t)"
    using front_matter_close_complete by blast
  then show "rx_match FRONT_MATTER_CLOSE t \<noteq> []" by auto
next
  assume "rx_match FRONT_MATTER_CLOSE t \<noteq> []"
  then obtain r where "r \<in> set (rx_match FRONT_MATTER_CLOSE t)"
    by (cases "rx_match FRONT_MATTER_CLOSE t") auto
  from front_matter_close_sound [OF this] show "closes t"
    unfolding closes_shape by blast
qed

lemma hd_concat_map:
  "concat (map f xs) = y # ys \<Longrightarrow>
     \<exists>pre x post t. xs = pre @ x # post \<and> (\<forall>z\<in>set pre. f z = []) \<and> f x = y # t"
proof (induction xs)
  case Nil
  then show ?case by simp
next
  case (Cons a xs)
  show ?case
  proof (cases "f a")
    case Nil
    with Cons.prems have "concat (map f xs) = y # ys" by simp
    from Cons.IH [OF this] obtain pre x post t where
      "xs = pre @ x # post" "\<forall>z\<in>set pre. f z = []" "f x = y # t" by blast
    then have "a # xs = (a # pre) @ x # post \<and> (\<forall>z\<in>set (a # pre). f z = []) \<and> f x = y # t"
      using Nil by simp
    then show ?thesis by blast
  next
    case (Cons b bs)
    with Cons.prems have "f a = y # bs" by simp
    then have "a # xs = [] @ a # xs \<and> (\<forall>z\<in>set []. f z = []) \<and> f a = y # bs" by simp
    then show ?thesis by blast
  qed
qed

lemma concat_map_split:
  "concat (map f xs) = pre @ r # post \<Longrightarrow>
     \<exists>xs1 x xs2 p1 p2. xs = xs1 @ x # xs2 \<and> f x = p1 @ r # p2 \<and> pre = concat (map f xs1) @ p1"
proof (induction xs arbitrary: pre)
  case Nil
  then show ?case by simp
next
  case (Cons a xs)
  from Cons.prems have "f a @ concat (map f xs) = pre @ r # post" by simp
  then consider (here) us where "f a = pre @ us" "us @ concat (map f xs) = r # post" "us \<noteq> []"
    | (later) us where "f a @ us = pre" "concat (map f xs) = us @ r # post"
    by (auto simp: append_eq_append_conv2) (metis append_Nil2 self_append_conv2)
  then show ?case
  proof cases
    case here
    then obtain p2 where "us = r # p2" by (cases us) auto
    then have "a # xs = [] @ a # xs \<and> f a = pre @ r # p2 \<and> pre = concat (map f []) @ pre"
      using here(1) by simp
    then show ?thesis by blast
  next
    case later
    from Cons.IH [OF later(2)] obtain xs1 x xs2 p1 p2 where
      "xs = xs1 @ x # xs2" "f x = p1 @ r # p2" "us = concat (map f xs1) @ p1" by blast
    then have "a # xs = (a # xs1) @ x # xs2 \<and> f x = p1 @ r # p2
                 \<and> pre = concat (map f (a # xs1)) @ p1"
      using later(1) by simp
    then show ?thesis by blast
  qed
qed

lemma star_greedy_length: "r \<in> set (star_greedy c s) \<Longrightarrow> length r \<le> length s"
  using star_greedy_sound by fastforce

lemma star_greedy_sorted: "sorted_wrt (\<lambda>a b. length a < length b) (star_greedy c s)"
proof (induction s)
  case Nil
  show ?case by simp
next
  case (Cons x xs)
  have "\<forall>r\<in>set (star_greedy c xs). length r < length (x # xs)"
    using star_greedy_length [of _ c xs] by fastforce
  then show ?case using Cons.IH by (simp add: sorted_wrt_append)
qed

lemma shorter_comes_first:
  assumes "sorted_wrt (\<lambda>a b. length a < length b) (p1 @ r # p2)"
    and "r' \<in> set (p1 @ r # p2)" and "length r' < length r"
  shows "r' \<in> set p1"
proof (rule ccontr)
  assume "r' \<notin> set p1"
  with assms(2) have "r' = r \<or> r' \<in> set p2" by auto
  moreover have "\<forall>z\<in>set p2. length r < length z"
    using assms(1) by (simp add: sorted_wrt_append)
  ultimately show False using assms(3) by auto
qed

lemma star_lazy_any: "star_lazy AnyChar s = map (\<lambda>k. drop k s) [0..<Suc (length s)]"
proof (induction s)
  case Nil
  show ?case by simp
next
  case (Cons x xs)
  have "map (\<lambda>k. drop k (x # xs)) [0..<Suc (Suc (length xs))]
          = (x # xs) # map (\<lambda>k. drop k (x # xs)) (map Suc [0..<Suc (length xs)])"
    by (simp only: map_Suc_upt) (simp add: upt_conv_Cons del: upt_Suc)
  also have "\<dots> = (x # xs) # map (\<lambda>k. drop k xs) [0..<Suc (length xs)]"
    by (simp del: upt_Suc)
  finally show ?case using Cons.IH by (simp del: upt_Suc)
qed

lemma plus_sorted: "sorted_wrt (\<lambda>a b. length a < length b) (rx_match (Plus c) t)"
  by (cases t) (simp_all add: star_greedy_sorted)

lemma plus_length: "r \<in> set (rx_match (Plus c) t) \<Longrightarrow> length r < length t"
  using plus_sound [of r c t] by (auto simp: length_greater_0_conv [symmetric] simp del: length_greater_0_conv)

lemma opens_split:
  assumes "opens ws"
  shows "ws = butlast ws @ [last ws] \<and> list_all (in_cls Space) (butlast ws)
           \<and> list_all (in_cls LineBreak) [last ws]"
proof -
  from assms have ne: "ws \<noteq> []" and sp: "list_all is_space ws" and lb: "is_line_break (last ws)"
    by (simp_all add: opens_def)
  have "list_all (in_cls Space) (butlast ws)"
    using sp by (auto simp: list_all_iff in_cls_Space dest: in_set_butlastD)
  then show ?thesis using ne lb by simp
qed

lemma opener_order:
  assumes L: "rx_match (Seq (Star Space) (Plus LineBreak)) s1 = pre @ r # post"
    and s1: "s1 = ws @ r'" and ws: "opens ws" and len: "length r' < length r"
  shows "r' \<in> set pre"
proof -
  let ?P = "rx_match (Plus LineBreak)"
  let ?t' = "[last ws] @ r'"
  from opens_split [OF ws] have split: "ws = butlast ws @ [last ws]"
    and sp: "list_all (in_cls Space) (butlast ws)"
    and lb: "list_all (in_cls LineBreak) [last ws]" by blast+
  have "s1 = butlast ws @ ?t'" using s1 split by (metis append_assoc)
  then have t'G: "?t' \<in> set (star_greedy Space s1)"
    using star_greedy_complete [OF sp] by simp
  have r't': "r' \<in> set (?P ?t')"
    using lb by (intro plus_complete) simp_all
  have "concat (map ?P (star_greedy Space s1)) = pre @ r # post"
    using L by simp
  from concat_map_split [OF this] obtain xs1 t xs2 p1 p2 where
    G: "star_greedy Space s1 = xs1 @ t # xs2" and Pt: "?P t = p1 @ r # p2"
    and pre: "pre = concat (map ?P xs1) @ p1" by blast
  from t'G G consider "?t' \<in> set xs1" | "?t' = t" | "?t' \<in> set xs2" by auto
  then show ?thesis
  proof cases
    case 1
    then show ?thesis using r't' pre by auto
  next
    case 2
    have "sorted_wrt (\<lambda>a b. length a < length b) (p1 @ r # p2)"
      using plus_sorted [of LineBreak t] Pt by simp
    moreover have "r' \<in> set (?P t)" using r't' unfolding 2 .
    then have "r' \<in> set (p1 @ r # p2)" unfolding Pt .
    ultimately have "r' \<in> set p1" using len by (rule shorter_comes_first)
    then show ?thesis using pre by simp
  next
    case 3
    have "sorted_wrt (\<lambda>a b. length a < length b) (xs1 @ t # xs2)"
      using star_greedy_sorted [of Space s1] G by simp
    then have "length t < length ?t'" using 3 by (auto simp: sorted_wrt_append)
    moreover have "r \<in> set (?P t)" using Pt by simp
    then have "length r < length t" by (rule plus_length)
    ultimately show ?thesis using len by simp
  qed
qed

lemma front_matter_head:
  assumes "match_front_matter md = Some (full, raw)"
  shows "\<exists>pre r1 post r2 r3.
           rx_match FRONT_MATTER_OPEN md = pre @ r1 # post
           \<and> (\<forall>z\<in>set pre. \<forall>k\<le>length z. rx_match FRONT_MATTER_CLOSE (drop k z) = [])
           \<and> r1 = raw @ r2
           \<and> (\<forall>k<length raw. rx_match FRONT_MATTER_CLOSE (drop k r1) = [])
           \<and> r3 \<in> set (rx_match FRONT_MATTER_CLOSE r2)
           \<and> full = take (length md - length r3) md"
proof -
  define g where "g = (\<lambda>(r1::ustring) (r2::ustring) (r3::ustring). (take (length md - length r3) md, take (length r1 - length r2) r1))"
  define F where "F = (\<lambda>r1. concat (map (\<lambda>r2. map (g r1 r2) (rx_match FRONT_MATTER_CLOSE r2))
                                  (rx_match (LazyStar AnyChar) r1)))"
  have P: "FRONT_MATTER_PATTERN md = concat (map F (rx_match FRONT_MATTER_OPEN md))"
    by (simp add: FRONT_MATTER_PATTERN_def F_def g_def)
  from assms obtain ms where "FRONT_MATTER_PATTERN md = (full, raw) # ms"
    by (auto simp: match_front_matter_def split: list.splits)
  then have "concat (map F (rx_match FRONT_MATTER_OPEN md)) = (full, raw) # ms" using P by simp
  from hd_concat_map [OF this] obtain pre r1 post t1 where
    O: "rx_match FRONT_MATTER_OPEN md = pre @ r1 # post"
    and pre: "\<forall>z\<in>set pre. F z = []" and Fr1: "F r1 = (full, raw) # t1" by blast
  from Fr1 have "concat (map (\<lambda>r2. map (g r1 r2) (rx_match FRONT_MATTER_CLOSE r2))
                   (star_lazy AnyChar r1)) = (full, raw) # t1"
    by (simp add: F_def)
  from hd_concat_map [OF this] obtain pre2 r2 post2 t2 where
    Z: "star_lazy AnyChar r1 = pre2 @ r2 # post2"
    and pre2: "\<forall>z\<in>set pre2. map (g r1 z) (rx_match FRONT_MATTER_CLOSE z) = []"
    and gr: "map (g r1 r2) (rx_match FRONT_MATTER_CLOSE r2) = (full, raw) # t2"
    by (elim exE conjE) (rule that)
  from gr have "\<exists>r3 rs. rx_match FRONT_MATTER_CLOSE r2 = r3 # rs \<and> g r1 r2 r3 = (full, raw)"
    by (cases "rx_match FRONT_MATTER_CLOSE r2") simp_all
  then obtain r3 rs where r3s: "rx_match FRONT_MATTER_CLOSE r2 = r3 # rs"
    and fr: "g r1 r2 r3 = (full, raw)"
    by (elim exE conjE) (rule that)
  have r3: "r3 \<in> set (rx_match FRONT_MATTER_CLOSE r2)" unfolding r3s by simp
  let ?n = "length pre2"
  have Z': "map (\<lambda>k. drop k r1) [0..<Suc (length r1)] = pre2 @ r2 # post2"
    using Z by (simp only: star_lazy_any)
  then have n: "?n < Suc (length r1)"
    by (metis length_map length_upt diff_zero length_append length_Cons less_add_Suc1 add_Suc_right)
  have nth: "(pre2 @ r2 # post2) ! k = drop k r1" if "k < Suc (length r1)" for k
    using that Z' by (metis nth_map_upt add_0 diff_zero)
  have r2: "r2 = drop ?n r1" using nth [OF n] by simp
  have early: "rx_match FRONT_MATTER_CLOSE (drop k r1) = []" if "k < ?n" for k
  proof -
    have "drop k r1 = pre2 ! k" using nth [of k] that n by (simp add: nth_append)
    then have "drop k r1 \<in> set pre2" using that by simp
    then show ?thesis using pre2 by auto
  qed
  from fr have fr1: "take (length md - length r3) md = full"
    and fr2: "take (length r1 - length r2) r1 = raw" by (simp_all add: g_def)
  have "length r1 - length r2 = ?n" unfolding r2 using n by simp
  then have raw: "raw = take ?n r1" using fr2 by simp
  have c1: "r1 = raw @ r2" using raw r2 by simp
  have c2: "length raw = ?n" using raw n by simp
  have c3: "\<forall>z\<in>set pre. \<forall>k\<le>length z. rx_match FRONT_MATTER_CLOSE (drop k z) = []"
  proof (intro ballI allI impI)
    fix z k assume z: "z \<in> set pre" and k: "k \<le> length z"
    have "drop k z \<in> set (star_lazy AnyChar z)"
      using k by (simp only: star_lazy_any) (auto simp: image_iff)
    moreover have "F z = []" using pre z by blast
    ultimately show "rx_match FRONT_MATTER_CLOSE (drop k z) = []"
      by (auto simp: F_def)
  qed
  have c4: "\<forall>k<length raw. rx_match FRONT_MATTER_CLOSE (drop k r1) = []"
    unfolding c2 using early by blast
  have c5: "full = take (length md - length r3) md" using fr1 by simp
  show ?thesis
    apply (rule exI [of _ pre], rule exI [of _ r1], rule exI [of _ post], rule exI [of _ r2],
        rule exI [of _ r3])
    apply (intro conjI)
         apply (rule O)
        apply (rule c3)
       apply (rule c1)
      apply (rule c4)
     apply (rule r3)
    apply (rule c5)
    done
qed

lemma no_dashes_after_space:
  assumes "startsWith (trimStart markdown) (js ''---'')"
  shows "\<exists>ws t. list_all is_space ws \<and> markdown = ws @ js ''---'' @ t"
proof -
  let ?d = "dropWhile is_space markdown"
  have len: "length (js ''---'') = 3" by (simp add: js_def)
  from assms have "take 3 ?d = js ''---''"
    by (simp add: startsWith_def trimStart_def len)
  moreover have "?d = take 3 ?d @ drop 3 ?d" by simp
  ultimately have "?d = js ''---'' @ drop 3 ?d" by simp
  then have "markdown = takeWhile is_space markdown @ js ''---'' @ drop 3 ?d"
    using takeWhile_dropWhile_id [of is_space markdown] by simp
  moreover have "list_all is_space (takeWhile is_space markdown)"
    by (auto simp: list_all_iff dest: set_takeWhileD)
  ultimately show ?thesis by blast
qed

lemma front_matter_found:
  assumes "markdown = js ''---'' @ opener @ raw @ tail" "opens opener" "closes tail"
  shows "match_front_matter markdown \<noteq> None"
proof -
  from assms(3) obtain closer trailing rest where
    t: "tail = closer @ js ''---'' @ trailing @ rest"
    and c: "closer = [0x0A] \<or> closer = [0x0D, 0x0A]"
    and tr: "list_all is_space trailing"
    and re: "rest = [] \<or> (trailing \<noteq> [] \<and> is_line_break (last trailing))"
    unfolding closes_shape by blast
  from assms(2) have o: "opener \<noteq> []" "list_all is_space opener" "is_line_break (last opener)"
    by (simp_all add: opens_def)
  have "markdown = js ''---'' @ opener @ raw @ closer @ js ''---'' @ trailing @ rest"
    using assms(1) t by simp
  then show ?thesis using o c tr re by (rule front_matter_pattern_complete)
qed

lemma front_matter_first:
  assumes m: "match_front_matter markdown = Some (fullMatch, rawFrontMatter)"
  shows "\<exists>opener closer body rest.
           markdown = js ''---'' @ opener @ rawFrontMatter @ closer @ js ''---'' @ body
           \<and> opens opener \<and> (closer = [0x0A] \<or> closer = [0x0D, 0x0A])
           \<and> closes (closer @ js ''---'' @ body)
           \<and> (\<forall>k<length rawFrontMatter.
                 \<not> closes (drop k (rawFrontMatter @ closer @ js ''---'' @ body)))
           \<and> (\<forall>opener' tail'.
                 markdown = js ''---'' @ opener' @ tail' \<and> opens opener'
                 \<and> length opener < length opener'
                 \<longrightarrow> (\<forall>k\<le>length tail'. \<not> closes (drop k tail')))
           \<and> markdown = fullMatch @ rest
           \<and> (\<exists>trailing. body = trailing @ rest \<and> list_all is_space trailing)"
proof -
  from front_matter_head [OF m] obtain pre r1 post r2 r3 where
    O: "rx_match FRONT_MATTER_OPEN markdown = pre @ r1 # post"
    and pre: "\<forall>z\<in>set pre. \<forall>k\<le>length z. rx_match FRONT_MATTER_CLOSE (drop k z) = []"
    and r1: "r1 = rawFrontMatter @ r2"
    and early: "\<forall>k<length rawFrontMatter. rx_match FRONT_MATTER_CLOSE (drop k r1) = []"
    and r3: "r3 \<in> set (rx_match FRONT_MATTER_CLOSE r2)"
    and full: "fullMatch = take (length markdown - length r3) markdown"
    by (elim exE conjE) (rule that)
  have "r1 \<in> set (rx_match FRONT_MATTER_OPEN markdown)" unfolding O by simp
  from front_matter_open_sound [OF this] obtain opener where
    md: "markdown = js ''---'' @ opener @ r1" and op: "opens opener"
    unfolding opens_def by blast
  from front_matter_close_sound [OF r3] obtain closer trailing where
    r2: "r2 = closer @ js ''---'' @ trailing @ r3"
    and cl: "closer = [0x0A] \<or> closer = [0x0D, 0x0A]"
    and tr: "list_all is_space trailing"
    and re: "r3 = [] \<or> (trailing \<noteq> [] \<and> is_line_break (last trailing))"
    by (elim exE conjE) (rule that)
  let ?body = "trailing @ r3"
  have md': "markdown = js ''---'' @ opener @ rawFrontMatter @ closer @ js ''---'' @ ?body"
    using md r1 r2 by simp
  have c: "closes (closer @ js ''---'' @ ?body)"
    unfolding closes_shape using cl tr re by blast
  have minimal: "\<forall>k<length rawFrontMatter.
                   \<not> closes (drop k (rawFrontMatter @ closer @ js ''---'' @ ?body))"
    using early unfolding closes_iff_match r1 r2 by simp
  have len3: "length (js ''---'') = 3" by (simp add: js_def)
  have open_eq: "rx_match FRONT_MATTER_OPEN markdown
                   = rx_match (Seq (Star Space) (Plus LineBreak)) (opener @ r1)"
    unfolding FRONT_MATTER_OPEN_def rx_match_lit md by (simp add: len3)
  have maximal: "\<forall>k\<le>length tail'. \<not> closes (drop k tail')"
    if h: "markdown = js ''---'' @ opener' @ tail' \<and> opens opener'
            \<and> length opener < length opener'" for opener' tail'
  proof -
    from h md have eq: "opener @ r1 = opener' @ tail'" by simp
    then have "length opener + length r1 = length opener' + length tail'"
      by (metis length_append)
    then have shorter: "length tail' < length r1" using h by simp
    from h have op': "opens opener'" by blast
    have "rx_match (Seq (Star Space) (Plus LineBreak)) (opener @ r1) = pre @ r1 # post"
      using O open_eq by simp
    then have "tail' \<in> set pre"
      using eq op' shorter by (rule opener_order)
    then show ?thesis using pre unfolding closes_iff_match by simp
  qed
  have rest: "markdown = fullMatch @ r3"
  proof -
    have "markdown = (js ''---'' @ opener @ rawFrontMatter @ closer @ js ''---'' @ trailing) @ r3"
      using md' by simp
    then show ?thesis using full
      by (metis append_eq_conv_conj diff_add_inverse2 length_append)
  qed
  show ?thesis
    apply (rule exI [of _ opener], rule exI [of _ closer], rule exI [of _ ?body],
        rule exI [of _ r3])
    apply (intro conjI)
           apply (rule md')
          apply (rule op)
         apply (rule cl)
        apply (rule c)
       apply (rule minimal)
      apply (intro allI impI)
      apply (erule maximal [rule_format])
      apply assumption
     apply (rule rest)
    apply (rule exI [of _ trailing])
    apply (simp add: tr)
    done
qed

text \<open>
  C7 (as amended). \<open>parseFrontMatter\<close> splits by the fixed pattern. A markdown string
  that does not begin, after leading white space, with \<open>---\<close>, or that the pattern
  does not match, comes back unchanged with no metadata; the pattern fails exactly when
  the string is not \<open>---\<close>, an opening, some text and a closing line. When it matches
  and the YAML parses, the block handed to the parser is the text between the opening
  and the first closing line after it, the opening being the longest one that leaves a
  closing line to find; the data is the parsed value when that is an array, a mapping
  or a date and absent otherwise; and the content is what follows the closing \<open>---\<close>
  without its leading white space.
\<close>

theorem parseFrontMatter_split:
  "(\<not> (\<exists>ws t. list_all is_space ws \<and> markdown = ws @ js ''---'' @ t)
      \<or> \<not> startsWith (trimStart markdown) (js ''---'')
      \<or> match_front_matter markdown = None \<longrightarrow>
      parseFrontMatter parseYaml markdown = (\<lparr>content = markdown, data = None\<rparr>, []))
   \<and> (match_front_matter markdown = None \<longleftrightarrow>
        \<not> (\<exists>opener raw tail.
              markdown = js ''---'' @ opener @ raw @ tail \<and> opens opener \<and> closes tail))
   \<and> (match_front_matter markdown = Some (fullMatch, rawFrontMatter)
        \<and> parseYaml rawFrontMatter = Inr d \<longrightarrow>
      parseFrontMatter parseYaml markdown
        = (\<lparr>content = trimStart (drop (length fullMatch) markdown),
            data = (case d of YDate _ \<Rightarrow> Some d | YSeq _ \<Rightarrow> Some d | YMap _ \<Rightarrow> Some d
                    | _ \<Rightarrow> None)\<rparr>, [])
      \<and> (\<exists>opener closer body ws.
            markdown = js ''---'' @ opener @ rawFrontMatter @ closer @ js ''---'' @ body
            \<and> opens opener \<and> (closer = [0x0A] \<or> closer = [0x0D, 0x0A])
            \<and> closes (closer @ js ''---'' @ body)
            \<and> (\<forall>k<length rawFrontMatter.
                  \<not> closes (drop k (rawFrontMatter @ closer @ js ''---'' @ body)))
            \<and> (\<forall>opener' tail'.
                  markdown = js ''---'' @ opener' @ tail' \<and> opens opener'
                  \<and> length opener < length opener'
                  \<longrightarrow> (\<forall>k\<le>length tail'. \<not> closes (drop k tail')))
            \<and> body = ws @ content (fst (parseFrontMatter parseYaml markdown))
            \<and> list_all is_space ws
            \<and> (content (fst (parseFrontMatter parseYaml markdown)) = []
                \<or> \<not> is_space (hd (content (fst (parseFrontMatter parseYaml markdown)))))))"
proof -
  have unchanged:
    "parseFrontMatter parseYaml markdown = (\<lparr>content = markdown, data = None\<rparr>, [])"
    if "\<not> (\<exists>ws t. list_all is_space ws \<and> markdown = ws @ js ''---'' @ t)
        \<or> \<not> startsWith (trimStart markdown) (js ''---'')
        \<or> match_front_matter markdown = None"
  proof -
    from that no_dashes_after_space [of markdown]
    have "\<not> startsWith (trimStart markdown) (js ''---'') \<or> match_front_matter markdown = None"
      by auto
    then show ?thesis by (auto simp: parseFrontMatter_def)
  qed
  have none: "match_front_matter markdown = None \<longleftrightarrow>
        \<not> (\<exists>opener raw tail.
              markdown = js ''---'' @ opener @ raw @ tail \<and> opens opener \<and> closes tail)"
  proof
    assume n: "match_front_matter markdown = None"
    show "\<not> (\<exists>opener raw tail.
              markdown = js ''---'' @ opener @ raw @ tail \<and> opens opener \<and> closes tail)"
    proof
      assume "\<exists>opener raw tail.
              markdown = js ''---'' @ opener @ raw @ tail \<and> opens opener \<and> closes tail"
      then obtain opener raw tail where
        "markdown = js ''---'' @ opener @ raw @ tail" "opens opener" "closes tail" by blast
      then have "match_front_matter markdown \<noteq> None" by (rule front_matter_found)
      then show False using n by simp
    qed
  next
    assume no: "\<not> (\<exists>opener raw tail.
              markdown = js ''---'' @ opener @ raw @ tail \<and> opens opener \<and> closes tail)"
    show "match_front_matter markdown = None"
    proof (rule ccontr)
      assume "match_front_matter markdown \<noteq> None"
      then obtain full raw where "match_front_matter markdown = Some (full, raw)" by auto
      from front_matter_first [OF this] obtain opener closer body where
        "markdown = js ''---'' @ opener @ raw @ closer @ js ''---'' @ body" "opens opener"
        "closes (closer @ js ''---'' @ body)" by blast
      then show False using no by blast
    qed
  qed
  have split:
    "parseFrontMatter parseYaml markdown
        = (\<lparr>content = trimStart (drop (length fullMatch) markdown),
            data = (case d of YDate _ \<Rightarrow> Some d | YSeq _ \<Rightarrow> Some d | YMap _ \<Rightarrow> Some d
                    | _ \<Rightarrow> None)\<rparr>, [])"
    if "match_front_matter markdown = Some (fullMatch, rawFrontMatter)
        \<and> parseYaml rawFrontMatter = Inr d"
  proof -
    have "(if is_object d then Some d else None)
            = (case d of YDate _ \<Rightarrow> Some d | YSeq _ \<Rightarrow> Some d | YMap _ \<Rightarrow> Some d
               | _ \<Rightarrow> None)"
      by (cases d) simp_all
    then show ?thesis
      using match_front_matter_starts [of markdown fullMatch rawFrontMatter] that
      by (simp add: parseFrontMatter_def)
  qed
  have shape:
    "\<exists>opener closer body ws.
            markdown = js ''---'' @ opener @ rawFrontMatter @ closer @ js ''---'' @ body
            \<and> opens opener \<and> (closer = [0x0A] \<or> closer = [0x0D, 0x0A])
            \<and> closes (closer @ js ''---'' @ body)
            \<and> (\<forall>k<length rawFrontMatter.
                  \<not> closes (drop k (rawFrontMatter @ closer @ js ''---'' @ body)))
            \<and> (\<forall>opener' tail'.
                  markdown = js ''---'' @ opener' @ tail' \<and> opens opener'
                  \<and> length opener < length opener'
                  \<longrightarrow> (\<forall>k\<le>length tail'. \<not> closes (drop k tail')))
            \<and> body = ws @ content (fst (parseFrontMatter parseYaml markdown))
            \<and> list_all is_space ws
            \<and> (content (fst (parseFrontMatter parseYaml markdown)) = []
                \<or> \<not> is_space (hd (content (fst (parseFrontMatter parseYaml markdown)))))"
    if h: "match_front_matter markdown = Some (fullMatch, rawFrontMatter)
        \<and> parseYaml rawFrontMatter = Inr d"
  proof -
    from h have m: "match_front_matter markdown = Some (fullMatch, rawFrontMatter)" by blast
    from front_matter_first [OF m] obtain opener closer body rest trailing where
      1: "markdown = js ''---'' @ opener @ rawFrontMatter @ closer @ js ''---'' @ body"
      and 2: "opens opener" and 3: "closer = [0x0A] \<or> closer = [0x0D, 0x0A]"
      and 4: "closes (closer @ js ''---'' @ body)"
      and 5: "\<forall>k<length rawFrontMatter.
                 \<not> closes (drop k (rawFrontMatter @ closer @ js ''---'' @ body))"
      and 6: "\<forall>opener' tail'.
                 markdown = js ''---'' @ opener' @ tail' \<and> opens opener'
                 \<and> length opener < length opener'
                 \<longrightarrow> (\<forall>k\<le>length tail'. \<not> closes (drop k tail'))"
      and 7: "markdown = fullMatch @ rest"
      and 8: "body = trailing @ rest" and 9: "list_all is_space trailing"
      by (elim exE conjE) (rule that)
    let ?c = "content (fst (parseFrontMatter parseYaml markdown))"
    have "drop (length fullMatch) markdown = rest" using 7 by simp
    then have c: "?c = dropWhile is_space rest"
      using split [OF h] by (simp add: trimStart_def)
    have b: "body = (trailing @ takeWhile is_space rest) @ ?c"
      using 8 c by simp
    have w: "list_all is_space (trailing @ takeWhile is_space rest)"
      using 9 by (auto simp: list_all_iff dest: set_takeWhileD)
    have e: "?c = [] \<or> \<not> is_space (hd ?c)"
      unfolding c using hd_dropWhile [of is_space rest] by blast
    show ?thesis
      apply (rule exI [of _ opener], rule exI [of _ closer], rule exI [of _ body],
          rule exI [of _ "trailing @ takeWhile is_space rest"])
      apply (intro conjI)
              apply (rule 1)
             apply (rule 2)
            apply (rule 3)
           apply (rule 4)
          apply (rule 5)
         apply (rule 6)
        apply (rule b)
       apply (rule w)
      apply (rule e)
      done
  qed
  show ?thesis
    apply (intro conjI impI)
       apply (erule unchanged)
      apply (rule none)
     apply (erule split)
    apply (erule shape)
    done
qed

lemma indented_markdown_match:
  "match_front_matter indented_markdown
     = Some (js ''---\<newline>\<newline>title: Hi\<newline>---\<newline>'', js ''title: Hi'')"
  by (simp add: indented_markdown_def match_front_matter_def FRONT_MATTER_PATTERN_def
      FRONT_MATTER_OPEN_def FRONT_MATTER_CLOSE_def js_def is_space_def is_line_break_def)

theorem parseFrontMatter_split_witness:
  "match_front_matter indented_markdown
     = Some (js ''---\<newline>\<newline>title: Hi\<newline>---\<newline>'', js ''title: Hi'')
   \<and> yaml_ok (js ''title: Hi'') = Inr (YMap [(js ''title'', YPrimitive (js ''Hi''))])
   \<and> parseFrontMatter yaml_ok indented_markdown
       = (\<lparr>content = js ''Body\<newline>---\<newline>more'',
           data = Some (YMap [(js ''title'', YPrimitive (js ''Hi''))])\<rparr>, [])
   \<and> \<not> startsWith (trimStart (js ''# Title'')) (js ''---'')
   \<and> parseFrontMatter yaml_ok (js ''# Title'') = (\<lparr>content = js ''# Title'', data = None\<rparr>, [])"
proof -
  have y: "yaml_ok (js ''title: Hi'') = Inr (YMap [(js ''title'', YPrimitive (js ''Hi''))])"
    by (simp add: yaml_ok_def)
  have c: "trimStart (drop (length (js ''---\<newline>\<newline>title: Hi\<newline>---\<newline>'')) indented_markdown)
             = js ''Body\<newline>---\<newline>more''"
    by (simp add: indented_markdown_def js_def trimStart_def is_space_def)
  have n: "\<not> startsWith (trimStart (js ''# Title'')) (js ''---'')"
    by (simp add: js_def trimStart_def startsWith_def is_space_def)
  have "parseFrontMatter yaml_ok indented_markdown
       = (\<lparr>content = js ''Body\<newline>---\<newline>more'',
           data = Some (YMap [(js ''title'', YPrimitive (js ''Hi''))])\<rparr>, [])"
    using parseFrontMatter_split
      [of indented_markdown yaml_ok "js ''---\<newline>\<newline>title: Hi\<newline>---\<newline>''" "js ''title: Hi''"
        "YMap [(js ''title'', YPrimitive (js ''Hi''))]"]
      indented_markdown_match y c
    by simp
  moreover have "parseFrontMatter yaml_ok (js ''# Title'')
       = (\<lparr>content = js ''# Title'', data = None\<rparr>, [])"
    using parseFrontMatter_split [of "js ''# Title''" yaml_ok] n by blast
  ultimately show ?thesis using indented_markdown_match y n by blast
qed

text \<open>
  C7 as stated returns the parsed YAML as data. A block of plain text parses to a
  string, which is no object: the data is absent and the block is in neither part of
  the result.
\<close>

theorem scalar_front_matter_has_no_data:
  "match_front_matter scalar_markdown
     = Some (js ''---\<newline>Some intro\<newline>---\<newline>'', js ''Some intro'')
   \<and> yaml_scalar (js ''Some intro'') = Inr (YPrimitive (js ''Some intro''))
   \<and> parseFrontMatter yaml_scalar scalar_markdown
       = (\<lparr>content = js ''More'', data = None\<rparr>, [])"
  by (simp add: scalar_markdown_def match_front_matter_def FRONT_MATTER_PATTERN_def
      FRONT_MATTER_OPEN_def FRONT_MATTER_CLOSE_def js_def is_space_def is_line_break_def
      parseFrontMatter_def yaml_scalar_def trimStart_def startsWith_def)

section \<open>The notes loader\<close>

lemma lower_dot: "ascii_lower c = 0x2E \<longleftrightarrow> c = 0x2E"
  unfolding ascii_lower_def by (auto simp: eq_diff_eq [symmetric])

lemma lower_m: "ascii_lower c = 0x6D \<longleftrightarrow> c = 0x6D \<or> c = 0x4D"
  unfolding ascii_lower_def by (auto simp: eq_diff_eq [symmetric])

lemma lower_d: "ascii_lower c = 0x64 \<longleftrightarrow> c = 0x64 \<or> c = 0x44"
  unfolding ascii_lower_def by (auto simp: eq_diff_eq [symmetric])

lemma lower_x: "ascii_lower c = 0x78 \<longleftrightarrow> c = 0x78 \<or> c = 0x58"
  unfolding ascii_lower_def by (auto simp: eq_diff_eq [symmetric])

lemma markdown_pattern_at:
  "rx_match MARKDOWN_PATTERN s =
     (if map ascii_lower s = js ''.md'' \<or> map ascii_lower s = js ''.mdx'' then [[]] else [])"
  by (auto simp: MARKDOWN_PATTERN_def js_def lower_dot lower_m lower_d lower_x
      split: list.splits)

lemma ends_with_ci_Cons:
  "ends_with_ci (x # xs) ext \<longleftrightarrow>
     (if length ext = Suc (length xs) then map ascii_lower (x # xs) = ext
      else ends_with_ci xs ext)"
  by (auto simp: ends_with_ci_def Suc_diff_le)

lemma ends_with_ci_short: "length ext = Suc (length xs) \<Longrightarrow> \<not> ends_with_ci xs ext"
  by (simp add: ends_with_ci_def)

lemma markdown_pattern_search:
  "rx_search MARKDOWN_PATTERN n =
     (if ends_with_ci n (js ''.md'') then Some (take (length n - 3) n, [])
      else if ends_with_ci n (js ''.mdx'') then Some (take (length n - 4) n, [])
      else None)"
proof (induction n)
  case Nil
  show ?case by (simp add: markdown_pattern_at ends_with_ci_def js_def)
next
  case (Cons x xs)
  have l3: "length (js ''.md'') = 3" and l4: "length (js ''.mdx'') = 4"
    by (simp_all add: js_def)
  show ?case
  proof (cases "map ascii_lower (x # xs) = js ''.md'' \<or> map ascii_lower (x # xs) = js ''.mdx''")
    case True
    then have len: "length (x # xs) = 3 \<or> length (x # xs) = 4"
      using l3 l4 by (metis length_map)
    from True have "rx_search MARKDOWN_PATTERN (x # xs) = Some ([], [])"
      by (simp add: markdown_pattern_at)
    moreover from True have
      "(ends_with_ci (x # xs) (js ''.md'') \<and> length (x # xs) = 3)
       \<or> (\<not> ends_with_ci (x # xs) (js ''.md'') \<and> ends_with_ci (x # xs) (js ''.mdx'')
            \<and> length (x # xs) = 4)"
    proof
      assume a: "map ascii_lower (x # xs) = js ''.md''"
      then have "length (x # xs) = 3" using l3 by (metis length_map)
      then show ?thesis using a by (simp add: ends_with_ci_def l3)
    next
      assume a: "map ascii_lower (x # xs) = js ''.mdx''"
      then have l: "length (x # xs) = 4" using l4 by (metis length_map)
      then have "ends_with_ci (x # xs) (js ''.mdx'')" using a by (simp add: ends_with_ci_def l4)
      moreover have "\<not> ends_with_ci (x # xs) (js ''.md'')"
      proof
        assume "ends_with_ci (x # xs) (js ''.md'')"
        then have "map ascii_lower (drop 1 (x # xs)) = js ''.md''"
          using l by (simp add: ends_with_ci_def l3)
        then have "drop 1 (map ascii_lower (x # xs)) = js ''.md''"
          by (simp add: drop_map)
        then show False using a by (simp add: js_def)
      qed
      ultimately show ?thesis using l by blast
    qed
    ultimately show ?thesis by auto
  next
    case False
    then have m: "rx_match MARKDOWN_PATTERN (x # xs) = []"
      by (simp add: markdown_pattern_at)
    have e3: "ends_with_ci (x # xs) (js ''.md'') \<longleftrightarrow> ends_with_ci xs (js ''.md'')"
      using False by (simp add: ends_with_ci_Cons ends_with_ci_short)
    have e4: "ends_with_ci (x # xs) (js ''.mdx'') \<longleftrightarrow> ends_with_ci xs (js ''.mdx'')"
      using False by (simp add: ends_with_ci_Cons ends_with_ci_short)
    have t3: "ends_with_ci xs (js ''.md'') \<Longrightarrow>
                take (length (x # xs) - 3) (x # xs) = x # take (length xs - 3) xs"
      by (auto simp: ends_with_ci_def l3 take_Cons')
    have t4: "ends_with_ci xs (js ''.mdx'') \<Longrightarrow>
                take (length (x # xs) - 4) (x # xs) = x # take (length xs - 4) xs"
      by (auto simp: ends_with_ci_def l4 take_Cons')
    show ?thesis
      using m Cons.IH t3 t4 by (simp add: e3 e4 del: length_Cons)
  qed
qed

lemma markdown_pattern_test: "rx_test MARKDOWN_PATTERN n = has_markdown_extension n"
  by (simp add: rx_test_def markdown_pattern_search has_markdown_extension_def)

lemma markdown_pattern_remove: "rx_remove MARKDOWN_PATTERN n = strip_extension n"
proof -
  have "ends_with_ci n (js ''.md'') \<Longrightarrow> take (length n - 3) n @ [] = take (length n - 3) n"
    by simp
  then show ?thesis
    by (simp add: rx_remove_def markdown_pattern_search strip_extension_def)
qed

lemma formatTitle_title_of: "formatTitle toUpperCase n = title_of toUpperCase n"
proof -
  have "(\<lambda>c::uchar. c \<in> {0x2D, 0x5F}) = (\<lambda>c. c = 0x2D \<or> c = 0x5F)" by auto
  moreover have "capitalize toUpperCase = (\<lambda>chunk. toUpperCase (take 1 chunk) @ drop 1 chunk)"
    by (rule ext) (simp add: capitalize_def)
  ultimately show ?thesis
    by (simp add: formatTitle_def title_of_def markdown_pattern_remove)
qed

lemma filter_map_filter:
  "filter P (map f (filter Q xs)) = map f (filter (\<lambda>x. Q x \<and> P (f x)) xs)"
  by (induction xs) auto

text \<open>
  C8 (as amended). When the listing fetch succeeds and the intro markdown renders, the
  articles are, in the order of the listing, exactly the entries whose type is
  \<open>file\<close>, whose name ends in \<open>.md\<close> or \<open>.mdx\<close> (any case) and whose
  \<open>download_url\<close> is neither \<open>null\<close> nor empty; each article's slug is the name
  without the extension, and its title joins with spaces the capitalised chunks of the
  slug between hyphens and underscores.
\<close>

theorem load_articles:
  assumes "ok status" and "marked_parse introMarkdown = Inr html"
  shows "articles (fst (load toUpperCase marked_parse introMarkdown (Response status (Inr files))))
           = map (to_article toUpperCase) (filter listed files)"
proof -
  have t: "truthy u \<longleftrightarrow> u \<noteq> None \<and> u \<noteq> Some []" for u
    by (cases u) (simp_all add: truthy_def)
  have a: "(\<lambda>file. \<lparr>title = formatTitle toUpperCase (name file),
                     slug = rx_remove MARKDOWN_PATTERN (name file),
                     download_url = github_file.download_url file,
                     path = github_file.path file\<rparr>) = to_article toUpperCase"
    by (rule ext) (simp add: to_article_def formatTitle_title_of markdown_pattern_remove)
  have l: "(\<lambda>x. type x = js ''file'' \<and> rx_test MARKDOWN_PATTERN (name x)
                 \<and> truthy (download_url (to_article toUpperCase x))) = listed"
    by (rule ext) (auto simp: listed_def t markdown_pattern_test to_article_def)
  show ?thesis
    using assms by (simp add: load_def Let_def a filter_map_filter l)
qed

theorem load_articles_witness:
  "ok 200 \<and> (Inr :: ustring \<Rightarrow> exn + ustring) (js ''# Hello'') = Inr (js ''# Hello'')
   \<and> articles (fst (load ascii_upper Inr (js ''# Hello'')
                  (Response 200 (Inr [file_note, file_dir, file_empty_url]))))
     = [\<lparr>title = js ''My First Note'', slug = js ''my-first_note'',
         download_url = Some (js ''https://raw/my-first_note.MD''),
         path = js ''my-first_note.MD''\<rparr>]"
proof -
  have 1: "listed file_note"
    by (simp add: listed_def file_note_def has_markdown_extension_def ends_with_ci_def js_def
        ascii_lower_def)
  have 2: "\<not> listed file_dir" by (simp add: listed_def file_dir_def js_def)
  have 3: "\<not> listed file_empty_url" by (simp add: listed_def file_empty_url_def)
  have s: "strip_extension (js ''my-first_note.MD'') = js ''my-first_note''"
    by (simp add: strip_extension_def ends_with_ci_def js_def ascii_lower_def)
  have 4: "to_article ascii_upper file_note
             = \<lparr>title = js ''My First Note'', slug = js ''my-first_note'',
                download_url = Some (js ''https://raw/my-first_note.MD''),
                path = js ''my-first_note.MD''\<rparr>"
    unfolding to_article_def title_of_def file_note_def
    by (simp add: s) (simp add: js_def capitalize_def ascii_upper_def)
  have o: "ok 200" by (simp add: ok_def)
  show ?thesis
    using load_articles [of 200 Inr "js ''# Hello''" "js ''# Hello''" ascii_upper
        "[file_note, file_dir, file_empty_url]", OF o] 1 2 3 4 o
    by simp
qed

text \<open>
  C8 as stated asks for every entry with a non-null \<open>download_url\<close>. The filter is
  \<open>Boolean(article.download_url)\<close>, so a markdown file whose \<open>download_url\<close> is the
  empty string is non-null and still dropped.
\<close>

theorem empty_download_url_dropped:
  "articles (fst (load ascii_upper Inr (js ''# Hello'') (Response 200 (Inr [file_empty_url])))) = []
   \<and> type file_empty_url = js ''file''
   \<and> rx_test MARKDOWN_PATTERN (name file_empty_url)
   \<and> github_file.download_url file_empty_url \<noteq> None"
  by (simp add: load_def ok_def file_empty_url_def truthy_def markdown_pattern_test
      has_markdown_extension_def ends_with_ci_def js_def ascii_lower_def)

section \<open>Fetch failures\<close>

text \<open>
  C5 (as amended). No failure is fatal, and an article fetch that fails shows a message.
  In \<open>selectArticle\<close> a non-success status becomes the error ``Unable to fetch the
  selected article.'' and a rejected fetch keeps its own error; the \<open>catch\<close> block
  puts the error's message (a fixed text for a thrown value that is no \<open>Error\<close>) in
  \<open>errorMessage\<close>; when the failing request is the latest one, \<open>isLoading\<close> is
  cleared and the panel shows the message, if it is not empty. In \<open>load\<close> a
  non-success status or a rejected fetch is logged with \<open>console.error\<close> and yields
  an empty article list and no intro: no error string goes to the page.
\<close>

theorem fetch_failures_handled:
  "(\<not> ok status \<longrightarrow>
      article_content parseYaml marked_parse toMeta (Response status body)
        = Inl (Error (js ''Unable to fetch the selected article.'')))
   \<and> article_content parseYaml marked_parse toMeta (Rejected e) = Inl e
   \<and> errorMessage (selectArticle_resume requestId (Inl (Error message)) v) = message
   \<and> errorMessage (selectArticle_resume requestId (Inl Thrown) v)
       = js ''An unexpected error occurred while loading.''
   \<and> (requestId = currentRequest v \<longrightarrow>
        \<not> isLoading (selectArticle_resume requestId (Inl e) v))
   \<and> (requestId = currentRequest v \<and> message \<noteq> [] \<and> arts \<noteq> [] \<longrightarrow>
        content_panel arts (selectArticle_resume requestId (Inl (Error message)) v)
          = ErrorText message)
   \<and> (\<not> ok status \<longrightarrow>
        load toUpperCase marked_parse introMarkdown (Response status listing)
          = (\<lparr>articles = [], introHtml = None\<rparr>,
             [(js ''Failed to fetch Notes repository contents'', LogStatus status)]))
   \<and> load toUpperCase marked_parse introMarkdown (Rejected e)
       = (\<lparr>articles = [], introHtml = None\<rparr>,
          [(js ''Unexpected error while loading Notes articles'', LogExn e)])"
proof -
  have 1: "\<not> ok status \<longrightarrow>
      article_content parseYaml marked_parse toMeta (Response status body)
        = Inl (Error (js ''Unable to fetch the selected article.''))"
    by (simp add: article_content_def)
  have 2: "article_content parseYaml marked_parse toMeta (Rejected e) = Inl e"
    by (simp add: article_content_def)
  have 3: "errorMessage (selectArticle_resume requestId (Inl (Error message)) v) = message"
    by (simp add: selectArticle_resume_def Let_def)
  have 4: "errorMessage (selectArticle_resume requestId (Inl Thrown) v)
       = js ''An unexpected error occurred while loading.''"
    by (simp add: selectArticle_resume_def Let_def)
  have 5: "requestId = currentRequest v \<longrightarrow>
        \<not> isLoading (selectArticle_resume requestId (Inl e) v)"
    by (simp add: selectArticle_resume_def Let_def)
  have 6: "requestId = currentRequest v \<and> message \<noteq> [] \<and> arts \<noteq> [] \<longrightarrow>
        content_panel arts (selectArticle_resume requestId (Inl (Error message)) v)
          = ErrorText message"
    by (simp add: selectArticle_resume_def content_panel_def Let_def)
  have 7: "\<not> ok status \<longrightarrow>
        load toUpperCase marked_parse introMarkdown (Response status listing)
          = (\<lparr>articles = [], introHtml = None\<rparr>,
             [(js ''Failed to fetch Notes repository contents'', LogStatus status)])"
    by (simp add: load_def load_failed_def)
  have 8: "load toUpperCase marked_parse introMarkdown (Rejected e)
       = (\<lparr>articles = [], introHtml = None\<rparr>,
          [(js ''Unexpected error while loading Notes articles'', LogExn e)])"
    by (simp add: load_def load_failed_def)
  from 1 2 3 4 5 6 7 8 show ?thesis by blast
qed

theorem fetch_failures_handled_witness:
  "\<not> ok 404
   \<and> article_content (\<lambda>s. Inr YNull) Inr (\<lambda>d. (None :: unit option)) (Response 404 (Inr (js ''Not Found'')))
       = Inl (Error (js ''Unable to fetch the selected article.''))
   \<and> (1::nat) = currentRequest (fst (selectArticle_start True article_a (initial_view :: unit view)))
   \<and> js ''Unable to fetch the selected article.'' \<noteq> [] \<and> [article_a] \<noteq> []
   \<and> content_panel [article_a]
        (selectArticle_resume 1 (Inl (Error (js ''Unable to fetch the selected article.'')))
           (fst (selectArticle_start True article_a (initial_view :: unit view))))
       = ErrorText (js ''Unable to fetch the selected article.'')
   \<and> load ascii_upper Inr (js ''# Hello'') (Response 404 (Inr []))
       = (\<lparr>articles = [], introHtml = None\<rparr>,
          [(js ''Failed to fetch Notes repository contents'', LogStatus 404)])"
proof -
  have o: "\<not> ok 404" by (simp add: ok_def)
  have c: "(1::nat) = currentRequest (fst (selectArticle_start True article_a (initial_view :: unit view)))"
    by (simp add: selectArticle_start_def initial_view_def article_a_def truthy_def js_def)
  have m: "js ''Unable to fetch the selected article.'' \<noteq> []" by (simp add: js_def)
  show ?thesis
    using fetch_failures_handled [of 404 "\<lambda>s. Inr YNull" Inr "\<lambda>d. (None :: unit option)"
        "Inr (js ''Not Found'')" "Error (js ''Unable to fetch the selected article.'')" 1
        "js ''Unable to fetch the selected article.''"
        "fst (selectArticle_start True article_a (initial_view :: unit view))" "[article_a]"
        ascii_upper "js ''# Hello''" "Inr []"] o c m
    by simp
qed

text \<open>
  C5 as stated has the failed listing fetch end in a visible error string. With status
  500 \<open>load\<close> returns only the empty article list, the error goes to the console,
  and the panel shows the hint it shows for a listing without markdown files.
\<close>

theorem load_failure_shows_no_error:
  "load ascii_upper Inr (js ''# Hello'') (Response 500 (Inr []))
     = (\<lparr>articles = [], introHtml = None\<rparr>,
        [(js ''Failed to fetch Notes repository contents'', LogStatus 500)])
   \<and> content_panel (articles (fst (load ascii_upper Inr (js ''# Hello'') (Response 500 (Inr [])))))
        (initial_view :: unit view) = AddFilesHint
   \<and> content_panel (articles (fst (load ascii_upper Inr (js ''# Hello'') (Response 200 (Inr [])))))
        (initial_view :: unit view) = AddFilesHint"
  by (simp add: load_def load_failed_def ok_def content_panel_def)

section \<open>The grid\<close>

lemma for_each_inv:
  assumes "P 0 s"
    and "\<And>k t. k < length xs \<Longrightarrow> P k t \<Longrightarrow> \<exists>t'. body (xs ! k) t = Inr t' \<and> P (Suc k) t'"
  shows "\<exists>s'. for_each xs body s = Inr s' \<and> P (length xs) s'"
  using assms
proof (induction xs arbitrary: s P)
  case Nil
  then show ?case by simp
next
  case (Cons x xs)
  from Cons.prems(2) [of 0 s] Cons.prems(1)
  obtain t where t: "body x s = Inr t" "P (Suc 0) t" by auto
  have "\<exists>s'. for_each xs body t = Inr s' \<and> P (Suc (length xs)) s'"
  proof (rule Cons.IH [where P = "\<lambda>k. P (Suc k)"])
    show "P (Suc 0) t" by (rule t(2))
  next
    fix k u
    assume "k < length xs" "P (Suc k) u"
    then show "\<exists>t'. body (xs ! k) u = Inr t' \<and> P (Suc (Suc k)) t'"
      using Cons.prems(2) [of "Suc k" u] by simp
  qed
  then show ?case using t(1) by simp
qed

lemma for_upt_inv:
  assumes "P 0 s"
    and "\<And>k t. k < n \<Longrightarrow> P k t \<Longrightarrow> \<exists>t'. body k t = Inr t' \<and> P (Suc k) t'"
  shows "\<exists>s'. for_each [0..<n] body s = Inr s' \<and> P n s'"
  using for_each_inv [of P s "[0..<n]" body] assms by simp

lemma at_index_nat: "i < length xs \<Longrightarrow> at_index xs (Some (int i)) = Some (xs ! i)"
  by (simp add: at_index_def)

lemma filled_refl: "filled l r s s"
  by (simp add: filled_def)

lemma filled_write:
  assumes f: "filled l r s t" and i: "i < length (grid s)" and a: "grid s ! i < length (heap s)"
    and j: "j < length (heap s ! (grid s ! i))" and out: "\<not> (l \<le> int j \<and> int j < r)"
  shows "\<exists>t'. write_cell t (grid t) i j v = Inr t' \<and> filled l r s t'"
proof -
  let ?a = "grid s ! i"
  let ?t' = "t\<lparr>heap := (heap t)[?a := (heap t ! ?a)[j := v]]\<rparr>"
  from f have g: "grid t = grid s" and len: "length (heap t) = length (heap s)"
    and row: "length (heap t ! ?a) = length (heap s ! ?a)"
    using a by (auto simp: filled_def)
  have w: "write_cell t (grid t) i j v = Inr ?t'"
    using i j by (simp add: write_cell_def g at_index_nat row)
  have mem: "?a \<in> set (grid s)" using i by simp
  have "filled l r s ?t'"
    unfolding filled_def
  proof (intro conjI allI impI)
    fix b assume b: "b < length (heap s)"
    show "length (heap ?t' ! b) = length (heap s ! b)"
      using f b len by (cases "b = ?a") (auto simp: filled_def)
    { assume "b \<notin> set (grid s)"
      then have "b \<noteq> ?a" using mem by auto
      then show "heap ?t' ! b = heap s ! b"
        using f b \<open>b \<notin> set (grid s)\<close> by (auto simp: filled_def) }
    { fix k assume k: "k < length (heap s ! b)" "l \<le> int k \<and> int k < r"
      then have "k \<noteq> j \<or> b \<noteq> ?a" using out by auto
      then show "heap ?t' ! b ! k = heap s ! b ! k"
        using f b k len row by (cases "b = ?a") (auto simp: filled_def) }
  qed (use f in \<open>simp_all add: filled_def\<close>)
  with w show ?thesis by blast
qed

lemma initializeGrid_allocated:
  "initializeGrid floor03 floor07 random s =
     for_each [0..<rows s] (\<lambda>i.
       for_each [0..<cols s] (\<lambda>j s'.
         if int j < floor03 (cols s) \<or> int j \<ge> floor07 (cols s) then
           write_cell s' (grid s') i j (random i j)
         else Inr s')) (allocated s)"
  by (simp add: initializeGrid_def new_rows_def allocated_def)

lemma allocated_fields [simp]:
  "rows (allocated s) = rows s" "cols (allocated s) = cols s"
  "canvas (allocated s) = canvas s" "browser (allocated s) = browser s"
  "grid (allocated s) = [length (heap s)..<length (heap s) + rows s]"
  "nextGrid (allocated s) = [length (heap s) + rows s..<length (heap s) + rows s + rows s]"
  "length (heap (allocated s)) = length (heap s) + rows s + rows s"
  by (simp_all add: allocated_def)

lemma allocated_row:
  assumes "length (heap s) \<le> a" "a < length (heap s) + rows s + rows s"
  shows "heap (allocated s) ! a = replicate (cols s) False"
proof -
  have "heap (allocated s)
          = heap s @ replicate (rows s + rows s) (replicate (cols s) False)"
    by (simp add: allocated_def replicate_add)
  then show ?thesis using assms by (simp add: nth_append)
qed

lemma grid_inv_allocated: "grid_inv (allocated s)"
  by (auto simp: grid_inv_def list_all_iff allocated_row)

lemma initializeGrid_filled:
  "\<exists>s'. initializeGrid floor03 floor07 random s = Inr s'
        \<and> filled (floor03 (cols s)) (floor07 (cols s)) (allocated s) s'"
  unfolding initializeGrid_allocated
proof (rule for_upt_inv [where P = "\<lambda>k. filled (floor03 (cols s)) (floor07 (cols s)) (allocated s)"])
  show "filled (floor03 (cols s)) (floor07 (cols s)) (allocated s) (allocated s)"
    by (rule filled_refl)
next
  fix i t
  assume i: "i < rows s" and t: "filled (floor03 (cols s)) (floor07 (cols s)) (allocated s) t"
  show "\<exists>t'. for_each [0..<cols s]
                (\<lambda>j s'. if int j < floor03 (cols s) \<or> floor07 (cols s) \<le> int j
                         then write_cell s' (grid s') i j (random i j) else Inr s') t = Inr t'
             \<and> filled (floor03 (cols s)) (floor07 (cols s)) (allocated s) t'"
  proof (rule for_upt_inv [where P = "\<lambda>k. filled (floor03 (cols s)) (floor07 (cols s)) (allocated s)"])
    show "filled (floor03 (cols s)) (floor07 (cols s)) (allocated s) t" by (rule t)
  next
    fix j u
    assume j: "j < cols s" and u: "filled (floor03 (cols s)) (floor07 (cols s)) (allocated s) u"
    show "\<exists>t'. (if int j < floor03 (cols s) \<or> floor07 (cols s) \<le> int j
                 then write_cell u (grid u) i j (random i j) else Inr u) = Inr t'
               \<and> filled (floor03 (cols s)) (floor07 (cols s)) (allocated s) t'"
    proof (cases "int j < floor03 (cols s) \<or> floor07 (cols s) \<le> int j")
      case True
      have "\<exists>t'. write_cell u (grid u) i j (random i j) = Inr t'
                 \<and> filled (floor03 (cols s)) (floor07 (cols s)) (allocated s) t'"
      proof (rule filled_write [OF u])
        show "i < length (grid (allocated s))" using i by simp
        show "grid (allocated s) ! i < length (heap (allocated s))" using i by simp
        show "j < length (heap (allocated s) ! (grid (allocated s) ! i))"
          using i j by (simp add: allocated_row)
        show "\<not> (floor03 (cols s) \<le> int j \<and> int j < floor07 (cols s))"
          using True by auto
      qed
      then show ?thesis using True by simp
    next
      case False
      then show ?thesis using u by simp
    qed
  qed
qed

lemma filled_grid_inv:
  assumes "filled l r s t" "grid_inv s"
  shows "grid_inv t"
  using assms by (auto simp: filled_def grid_inv_def list_all_iff)

text \<open>
  C10. \<open>initializeGrid\<close> always returns, and afterwards every cell of \<open>grid\<close> in a
  column \<open>j\<close> with \<open>floor(cols * 0.3) \<le> j < floor(cols * 0.7)\<close> is dead, whatever
  the random draws and whatever the two floored products are: the seeding loop writes
  only outside that band.
\<close>

theorem initializeGrid_center_dead:
  "\<exists>s'. initializeGrid floor03 floor07 random s = Inr s'
        \<and> rows s' = rows s \<and> cols s' = cols s
        \<and> (\<forall>i<rows s. \<forall>j<cols s.
              floor03 (cols s) \<le> int j \<and> int j < floor07 (cols s) \<longrightarrow> \<not> cell s' i j)"
proof -
  from initializeGrid_filled obtain s' where
    s': "initializeGrid floor03 floor07 random s = Inr s'"
    and f: "filled (floor03 (cols s)) (floor07 (cols s)) (allocated s) s'" by blast
  have "\<not> cell s' i j"
    if "i < rows s" "j < cols s" "floor03 (cols s) \<le> int j \<and> int j < floor07 (cols s)" for i j
  proof -
    let ?a = "length (heap s) + i"
    have a: "?a < length (heap (allocated s))" using that(1) by simp
    have row: "heap (allocated s) ! ?a = replicate (cols s) False"
      using that(1) by (simp add: allocated_row)
    have g: "grid s' ! i = ?a" using f that(1) by (simp add: filled_def)
    from f a have "\<forall>j<length (heap (allocated s) ! ?a).
        floor03 (cols s) \<le> int j \<and> int j < floor07 (cols s) \<longrightarrow>
        heap s' ! ?a ! j = heap (allocated s) ! ?a ! j"
      unfolding filled_def by blast
    then have "heap s' ! ?a ! j = heap (allocated s) ! ?a ! j"
      using that(2,3) row by simp
    then show ?thesis using that(2) by (simp add: cell_def g row)
  qed
  moreover have "rows s' = rows s" "cols s' = cols s" using f by (simp_all add: filled_def)
  ultimately show ?thesis using s' by blast
qed

lemma js_rem_nonneg: "0 \<le> a \<Longrightarrow> 0 < b \<Longrightarrow> js_rem a b = Some (a mod b)"
  by (cases "a = 0") (simp_all add: js_rem_def sgn_if)

lemma js_rem_wrap:
  assumes "0 \<le> x" "x < int n" "d \<in> {-1, 0, 1}"
  shows "js_rem (x + d + int n) (int n) = Some ((x + d) mod int n)"
proof -
  have "0 \<le> x + d + int n" "0 < int n" using assms by auto
  then have "js_rem (x + d + int n) (int n) = Some ((x + d + int n) mod int n)"
    by (rule js_rem_nonneg)
  then show ?thesis by simp
qed

lemma read_cell_wrap:
  assumes wf: "well_formed s g" and x: "0 \<le> x" "x < int (cols s)" and y: "0 \<le> y" "y < int (rows s)"
    and d: "i \<in> {-1, 0, 1}" "j \<in> {-1, 0, 1}"
  shows "read_cell (heap s) g (js_rem (y + j + int (rows s)) (int (rows s)))
           (js_rem (x + i + int (cols s)) (int (cols s)))
         = Inr (alive_at s g (wrap s x y (i, j)))"
proof -
  let ?r = "(y + j) mod int (rows s)" and ?c = "(x + i) mod int (cols s)"
  have r: "0 \<le> ?r" "?r < int (rows s)" using y by simp_all
  have c: "0 \<le> ?c" "?c < int (cols s)" using x by simp_all
  have rn: "nat ?r < length g" using r wf by (simp add: well_formed_def)
  then have "g ! nat ?r \<in> set g" by simp
  then have row: "length (heap s ! (g ! nat ?r)) = cols s"
    using wf by (simp add: well_formed_def list_all_iff)
  have 1: "at_index g (Some ?r) = Some (g ! nat ?r)"
    using r wf by (simp add: at_index_def well_formed_def)
  have 2: "at_index (heap s ! (g ! nat ?r)) (Some ?c) = Some (heap s ! (g ! nat ?r) ! nat ?c)"
    using c row by (simp add: at_index_def)
  show ?thesis
    using 1 2
    by (simp add: js_rem_wrap [OF y d(2)] js_rem_wrap [OF x d(1)] read_cell_def alive_at_def
        wrap_def)
qed

lemma length_filter_Cons: "length (filter P (p # ps)) = of_bool (P p) + length (filter P ps)"
  by simp

lemma countNeighbors_wrap:
  assumes wf: "well_formed s g" and x: "0 \<le> x" "x < int (cols s)" and y: "0 \<le> y" "y < int (rows s)"
  shows "countNeighbors s g x y = Inr (length (filter (alive_at s g) (neighbour_cells s x y)))"
proof -
  note rc = read_cell_wrap [OF wf x y]
  note rcs = rc [of "-1" "-1", simplified] rc [of "-1" 0, simplified] rc [of "-1" 1, simplified]
    rc [of 0 "-1", simplified] rc [of 0 1, simplified]
    rc [of 1 "-1", simplified] rc [of 1 0, simplified] rc [of 1 1, simplified]
  have inc: "(if b then k + 1 else k) = k + of_bool b" for b and k :: nat by simp
  show ?thesis
    unfolding countNeighbors_def neighbour_cells_def offsets_def list.map length_filter_Cons
    by (simp add: rcs Let_def inc)
qed

lemma wrap_offset_inj:
  assumes n: "3 \<le> n" and d: "d \<in> {-1, 0, 1}" "d' \<in> {-1, 0, 1}"
    and eq: "(x + d) mod int n = (x + d') mod int n"
  shows "d = (d' :: int)"
proof (rule ccontr)
  assume ne: "d \<noteq> d'"
  from eq have "int n dvd (x + d) - (x + d')" by (simp add: mod_eq_dvd_iff)
  then have "int n dvd d - d'" by simp
  moreover have "d - d' \<noteq> 0" using ne by simp
  ultimately have "\<bar>int n\<bar> \<le> \<bar>d - d'\<bar>" by (rule dvd_imp_le_int [rotated])
  moreover have "\<bar>d - d'\<bar> \<le> 2" using d by auto
  ultimately show False using n by simp
qed

lemma offsets_range:
  "p \<in> set offsets \<Longrightarrow> fst p \<in> {-1, 0, 1} \<and> snd p \<in> {-1, 0, 1} \<and> p \<noteq> (0, 0)"
  by (auto simp: offsets_def)

lemma wrap_eq_iff:
  assumes "3 \<le> cols s" "3 \<le> rows s"
    and "fst p \<in> {-1, 0, 1}" "snd p \<in> {-1, 0, 1}" "fst q \<in> {-1, 0, 1}" "snd q \<in> {-1, 0, 1}"
    and "wrap s x y p = wrap s x y q"
  shows "p = q"
proof -
  have c: "0 < int (cols s)" and r: "0 < int (rows s)" using assms(1,2) by simp_all
  from assms(7) have "nat ((x + fst p) mod int (cols s)) = nat ((x + fst q) mod int (cols s))"
    and "nat ((y + snd p) mod int (rows s)) = nat ((y + snd q) mod int (rows s))"
    by (simp_all add: wrap_def)
  then have "(x + fst p) mod int (cols s) = (x + fst q) mod int (cols s)"
    and "(y + snd p) mod int (rows s) = (y + snd q) mod int (rows s)"
    using c r by (simp_all add: nat_eq_iff)
  then have "fst p = fst q" "snd p = snd q"
    using assms(1-6) by (auto intro: wrap_offset_inj)
  then show ?thesis by (simp add: prod_eq_iff)
qed

lemma neighbour_cells_distinct:
  assumes "3 \<le> cols s" "3 \<le> rows s"
  shows "distinct (neighbour_cells s x y)"
proof -
  have "inj_on (wrap s x y) (set offsets)"
  proof (rule inj_onI)
    fix p q assume "p \<in> set offsets" "q \<in> set offsets" "wrap s x y p = wrap s x y q"
    then show "p = q"
      using wrap_eq_iff [OF assms] offsets_range by blast
  qed
  moreover have "distinct offsets" by (simp add: offsets_def)
  ultimately show ?thesis by (simp add: neighbour_cells_def distinct_map)
qed

lemma neighbour_cells_not_self:
  assumes "3 \<le> cols s" "3 \<le> rows s" and x: "0 \<le> x" "x < int (cols s)"
    and y: "0 \<le> y" "y < int (rows s)"
  shows "(nat x, nat y) \<notin> set (neighbour_cells s x y)"
proof
  assume "(nat x, nat y) \<in> set (neighbour_cells s x y)"
  then obtain p where p: "p \<in> set offsets" "wrap s x y p = (nat x, nat y)"
    by (auto simp: neighbour_cells_def)
  have "wrap s x y (0, 0) = (nat x, nat y)" using x y by (simp add: wrap_def)
  with p(2) have "wrap s x y p = wrap s x y (0, 0)" by simp
  then have "p = (0, 0)"
    using wrap_eq_iff [OF assms(1,2), of p "(0, 0)"] offsets_range [OF p(1)] by simp
  then show False using offsets_range [OF p(1)] by simp
qed

text \<open>
  C2 (as amended). For a cell \<open>(x, y)\<close> of a \<open>rows\<close> by \<open>cols\<close> grid,
  \<open>countNeighbors\<close> returns the number of the eight non-zero offsets whose wrapped
  position holds a live cell. When the grid has at least three rows and three columns
  the eight positions are different cells, none of them \<open>(x, y)\<close>, and the result is
  the number of live neighbours.
\<close>

theorem countNeighbors_counts_offsets:
  assumes "well_formed s g" and "0 \<le> x" "x < int (cols s)" and "0 \<le> y" "y < int (rows s)"
  shows "countNeighbors s g x y = Inr (length (filter (alive_at s g) (neighbour_cells s x y)))
         \<and> (3 \<le> cols s \<and> 3 \<le> rows s \<longrightarrow>
              distinct (neighbour_cells s x y)
              \<and> (nat x, nat y) \<notin> set (neighbour_cells s x y)
              \<and> countNeighbors s g x y = Inr (live_neighbours s g x y))"
proof -
  have c: "countNeighbors s g x y = Inr (length (filter (alive_at s g) (neighbour_cells s x y)))"
    using assms by (rule countNeighbors_wrap)
  have "distinct (neighbour_cells s x y) \<and> (nat x, nat y) \<notin> set (neighbour_cells s x y)
        \<and> countNeighbors s g x y = Inr (live_neighbours s g x y)"
    if big: "3 \<le> cols s \<and> 3 \<le> rows s"
  proof -
    have d: "distinct (neighbour_cells s x y)"
      using big by (simp add: neighbour_cells_distinct)
    have n: "(nat x, nat y) \<notin> set (neighbour_cells s x y)"
      using big assms(2-5) by (simp add: neighbour_cells_not_self)
    have "filter (\<lambda>p. p \<noteq> (nat x, nat y) \<and> alive_at s g p) (neighbour_cells s x y)
            = filter (alive_at s g) (neighbour_cells s x y)"
      using n by (intro filter_cong) auto
    then have "live_neighbours s g x y = length (filter (alive_at s g) (neighbour_cells s x y))"
      using d by (simp add: live_neighbours_def distinct_remdups_id)
    then show ?thesis using c d n by simp
  qed
  with c show ?thesis by blast
qed

text \<open>
  C2 as stated fails on a grid with a single column or row: on the grid of one live
  cell every offset wraps to the cell itself, and \<open>countNeighbors\<close> returns 8 where
  the cell has no live neighbour.
\<close>

theorem single_cell_counts_itself:
  "countNeighbors lonely (grid lonely) 0 0 = Inr 8
   \<and> live_neighbours lonely (grid lonely) 0 0 = 0
   \<and> well_formed lonely (grid lonely) \<and> grid_inv lonely"
  by (simp add: countNeighbors_def lonely_def read_cell_def at_index_def js_rem_def
      live_neighbours_def neighbour_cells_def offsets_def wrap_def alive_at_def well_formed_def
      grid_inv_def)

lemma at_index_in_set: "at_index xs k = Some a \<Longrightarrow> a \<in> set xs"
  by (auto simp: at_index_def split: option.splits if_splits)

lemma read_cell_cong:
  assumes "\<forall>a\<in>set g. h' ! a = h ! a"
  shows "read_cell h' g r c = read_cell h g r c"
proof (cases "at_index g r")
  case None
  then show ?thesis by (simp add: read_cell_def)
next
  case (Some a)
  then have "h' ! a = h ! a" using assms at_index_in_set by fastforce
  then show ?thesis using Some by (simp add: read_cell_def)
qed

lemma countNeighbors_cong:
  assumes "cols t = cols s" "rows t = rows s" "\<forall>a\<in>set g. heap t ! a = heap s ! a"
  shows "countNeighbors t g x y = countNeighbors s g x y"
proof -
  have h: "read_cell (heap t) g = read_cell (heap s) g"
    by (intro ext) (rule read_cell_cong [OF assms(3)])
  show ?thesis unfolding countNeighbors_def assms(1) assms(2) h ..
qed

lemma grid_inv_well_formed: "grid_inv s \<Longrightarrow> well_formed s (grid s)"
  by (simp add: grid_inv_def well_formed_def)

lemma stepping_reads:
  assumes "grid_inv s" "stepping s t"
  shows "\<forall>a\<in>set (grid s). heap t ! a = heap s ! a"
proof
  fix a assume a: "a \<in> set (grid s)"
  then have "a < length (heap s)" "a \<notin> set (nextGrid s)"
    using assms(1) by (auto simp: grid_inv_def list_all_iff)
  then show "heap t ! a = heap s ! a" using assms(2) by (simp add: stepping_def)
qed

lemma life_rule_eq:
  "life_rule c n = (if c \<and> (n < 2 \<or> n > 3) then False else if \<not> c \<and> n = 3 then True else c)"
proof (cases "c \<and> \<not> n < 2 \<and> \<not> 3 < n")
  case True
  then have "n = 2 \<or> n = 3" by arith
  then show ?thesis using True by (simp add: life_rule_def)
next
  case False
  then show ?thesis by (auto simp: life_rule_def)
qed

lemma rule_branches:
  "(if c \<and> (n < 2 \<or> n > 3) then f False else if \<not> c \<and> n = 3 then f True else f c)
     = f (life_rule c n)"
  by (auto simp: life_rule_eq)

lemma stepping_refl: "stepping s s"
  by (simp add: stepping_def)

lemma generation_cell:
  assumes inv: "grid_inv s" and st: "stepping s t" and d: "done_upto s t i j"
    and i: "i < rows s" and j: "j < cols s"
  shows "\<exists>t'.
     (case countNeighbors t (grid t) (int j) (int i) of
        Inl e \<Rightarrow> Inl e
      | Inr neighbors \<Rightarrow>
          (case read_cell (heap t) (grid t) (Some (int i)) (Some (int j)) of
             Inl e \<Rightarrow> Inl e
           | Inr currentCell \<Rightarrow>
               if currentCell \<and> (neighbors < 2 \<or> neighbors > 3) then
                 write_cell t (nextGrid t) i j False
               else if \<not> currentCell \<and> neighbors = 3 then
                 write_cell t (nextGrid t) i j True
               else write_cell t (nextGrid t) i j currentCell)) = Inr t'
     \<and> stepping s t' \<and> done_upto s t' i (Suc j)"
proof -
  let ?a = "nextGrid s ! i"
  let ?v = "next_cell s i j"
  let ?t' = "t\<lparr>heap := (heap t)[?a := (heap t ! ?a)[j := ?v]]\<rparr>"
  have wf: "well_formed s (grid s)" using inv by (rule grid_inv_well_formed)
  have reads: "\<forall>a\<in>set (grid s). heap t ! a = heap s ! a"
    using inv st by (rule stepping_reads)
  have g: "grid t = grid s" "nextGrid t = nextGrid s" "cols t = cols s" "rows t = rows s"
    "length (heap t) = length (heap s)"
    using st by (simp_all add: stepping_def)
  have n: "countNeighbors t (grid t) (int j) (int i)
             = Inr (length (filter (alive_at s (grid s)) (neighbour_cells s (int j) (int i))))"
    unfolding g(1) countNeighbors_cong [OF g(3,4) reads]
    using wf i j by (intro countNeighbors_wrap) simp_all
  have gi: "i < length (grid s)" "i < length (nextGrid s)"
    using inv i by (simp_all add: grid_inv_def)
  then have mem: "grid s ! i \<in> set (grid s)" "?a \<in> set (nextGrid s)" by simp_all
  then have rows_ok: "length (heap s ! (grid s ! i)) = cols s" "?a < length (heap s)"
    "length (heap s ! ?a) = cols s"
    using inv by (auto simp: grid_inv_def list_all_iff)
  have c: "read_cell (heap t) (grid t) (Some (int i)) (Some (int j)) = Inr (cell s i j)"
    unfolding g(1) read_cell_cong [OF reads]
    using gi(1) j rows_ok(1) by (simp add: read_cell_def at_index_nat cell_def)
  have row_t: "length (heap t ! ?a) = cols s"
    using st rows_ok(2,3) by (simp add: stepping_def)
  have w: "write_cell t (nextGrid t) i j v = Inr (t\<lparr>heap := (heap t)[?a := (heap t ! ?a)[j := v]]\<rparr>)"
    for v
    using gi(2) j row_t by (simp add: write_cell_def g(2) at_index_nat)
  have body: "(case countNeighbors t (grid t) (int j) (int i) of
        Inl e \<Rightarrow> Inl e
      | Inr neighbors \<Rightarrow>
          (case read_cell (heap t) (grid t) (Some (int i)) (Some (int j)) of
             Inl e \<Rightarrow> Inl e
           | Inr currentCell \<Rightarrow>
               if currentCell \<and> (neighbors < 2 \<or> neighbors > 3) then
                 write_cell t (nextGrid t) i j False
               else if \<not> currentCell \<and> neighbors = 3 then
                 write_cell t (nextGrid t) i j True
               else write_cell t (nextGrid t) i j currentCell)) = Inr ?t'"
    unfolding n c sum.case rule_branches [where f = "write_cell t (nextGrid t) i j"]
    by (simp add: w next_cell_def)
  have st': "stepping s ?t'"
    unfolding stepping_def
  proof (intro conjI allI impI)
    fix b assume b: "b < length (heap s)"
    show "length (heap ?t' ! b) = length (heap s ! b)"
      using st b g(5) by (cases "b = ?a") (auto simp: stepping_def)
    { assume nb: "b \<notin> set (nextGrid s)"
      then have "b \<noteq> ?a" using mem(2) by auto
      then show "heap ?t' ! b = heap s ! b"
        using st b nb by (auto simp: stepping_def) }
  qed (use st in \<open>simp_all add: stepping_def\<close>)
  have d': "done_upto s ?t' i (Suc j)"
    unfolding done_upto_def
  proof (intro allI impI)
    fix i' j' assume i': "i' < rows s" and j': "j' < cols s"
      and before: "i' < i \<or> (i' = i \<and> j' < Suc j)"
    show "heap ?t' ! (nextGrid s ! i') ! j' = next_cell s i' j'"
    proof (cases "i' = i")
      case True
      show ?thesis
      proof (cases "j' = j")
        case True
        then show ?thesis
          using \<open>i' = i\<close> rows_ok(2) g(5) j row_t by simp
      next
        case False
        then have "j' < j" using before \<open>i' = i\<close> by auto
        then have "heap t ! ?a ! j' = next_cell s i j'"
          using d i j' by (simp add: done_upto_def)
        then show ?thesis
          using \<open>i' = i\<close> False rows_ok(2) g(5) by simp
      qed
    next
      case False
      then have lt: "i' < i" using before by auto
      have "distinct (nextGrid s)" using inv by (simp add: grid_inv_def)
      moreover have "i' < length (nextGrid s)" using inv i' by (simp add: grid_inv_def)
      ultimately have "nextGrid s ! i' \<noteq> ?a"
        using gi(2) False by (simp add: nth_eq_iff_index_eq)
      moreover have "heap t ! (nextGrid s ! i') ! j' = next_cell s i' j'"
        using d i' j' lt by (simp add: done_upto_def)
      ultimately show ?thesis by simp
    qed
  qed
  from body st' d' show ?thesis by blast
qed

lemma done_upto_row: "done_upto s t i (cols s) \<Longrightarrow> done_upto s t (Suc i) 0"
  by (auto simp: done_upto_def less_Suc_eq)

lemma done_upto_start: "done_upto s t 0 0"
  by (simp add: done_upto_def)

lemma generation_loops:
  assumes inv: "grid_inv s"
  shows "\<exists>t. for_each [0..<rows s] (\<lambda>i.
          for_each [0..<cols s] (\<lambda>j s'.
            (case countNeighbors s' (grid s') (int j) (int i) of
               Inl e \<Rightarrow> Inl e
             | Inr neighbors \<Rightarrow>
                 (case read_cell (heap s') (grid s') (Some (int i)) (Some (int j)) of
                    Inl e \<Rightarrow> Inl e
                  | Inr currentCell \<Rightarrow>
                      if currentCell \<and> (neighbors < 2 \<or> neighbors > 3) then
                        write_cell s' (nextGrid s') i j False
                      else if \<not> currentCell \<and> neighbors = 3 then
                        write_cell s' (nextGrid s') i j True
                      else write_cell s' (nextGrid s') i j currentCell)))) s = Inr t
        \<and> stepping s t \<and> done_upto s t (rows s) 0"
proof (rule for_upt_inv [where P = "\<lambda>i t. stepping s t \<and> done_upto s t i 0"])
  show "stepping s s \<and> done_upto s s 0 0"
    by (simp add: stepping_refl done_upto_start)
next
  fix i t
  assume i: "i < rows s" and t: "stepping s t \<and> done_upto s t i 0"
  have "\<exists>t'. for_each [0..<cols s] (\<lambda>j s'.
            (case countNeighbors s' (grid s') (int j) (int i) of
               Inl e \<Rightarrow> Inl e
             | Inr neighbors \<Rightarrow>
                 (case read_cell (heap s') (grid s') (Some (int i)) (Some (int j)) of
                    Inl e \<Rightarrow> Inl e
                  | Inr currentCell \<Rightarrow>
                      if currentCell \<and> (neighbors < 2 \<or> neighbors > 3) then
                        write_cell s' (nextGrid s') i j False
                      else if \<not> currentCell \<and> neighbors = 3 then
                        write_cell s' (nextGrid s') i j True
                      else write_cell s' (nextGrid s') i j currentCell))) t = Inr t'
        \<and> stepping s t' \<and> done_upto s t' i (cols s)"
  proof (rule for_upt_inv [where P = "\<lambda>j u. stepping s u \<and> done_upto s u i j"])
    show "stepping s t \<and> done_upto s t i 0" by (rule t)
  next
    fix j u
    assume j: "j < cols s" and u: "stepping s u \<and> done_upto s u i j"
    from u have "stepping s u" "done_upto s u i j" by blast+
    from generation_cell [OF inv this i j]
    show "\<exists>t'. (case countNeighbors u (grid u) (int j) (int i) of
               Inl e \<Rightarrow> Inl e
             | Inr neighbors \<Rightarrow>
                 (case read_cell (heap u) (grid u) (Some (int i)) (Some (int j)) of
                    Inl e \<Rightarrow> Inl e
                  | Inr currentCell \<Rightarrow>
                      if currentCell \<and> (neighbors < 2 \<or> neighbors > 3) then
                        write_cell u (nextGrid u) i j False
                      else if \<not> currentCell \<and> neighbors = 3 then
                        write_cell u (nextGrid u) i j True
                      else write_cell u (nextGrid u) i j currentCell)) = Inr t'
          \<and> stepping s t' \<and> done_upto s t' i (Suc j)" .
  qed
  then show "\<exists>t'. for_each [0..<cols s] (\<lambda>j s'.
            (case countNeighbors s' (grid s') (int j) (int i) of
               Inl e \<Rightarrow> Inl e
             | Inr neighbors \<Rightarrow>
                 (case read_cell (heap s') (grid s') (Some (int i)) (Some (int j)) of
                    Inl e \<Rightarrow> Inl e
                  | Inr currentCell \<Rightarrow>
                      if currentCell \<and> (neighbors < 2 \<or> neighbors > 3) then
                        write_cell s' (nextGrid s') i j False
                      else if \<not> currentCell \<and> neighbors = 3 then
                        write_cell s' (nextGrid s') i j True
                      else write_cell s' (nextGrid s') i j currentCell))) t = Inr t'
        \<and> stepping s t' \<and> done_upto s t' (Suc i) 0"
    using done_upto_row by blast
qed

lemma computeNextGeneration_result:
  assumes inv: "grid_inv s"
  shows "\<exists>t. computeNextGeneration s = Inr (t\<lparr>grid := nextGrid s, nextGrid := grid s\<rparr>)
             \<and> stepping s t \<and> done_upto s t (rows s) 0"
proof -
  from generation_loops [OF inv] obtain t where
    t: "for_each [0..<rows s] (\<lambda>i.
          for_each [0..<cols s] (\<lambda>j s'.
            (case countNeighbors s' (grid s') (int j) (int i) of
               Inl e \<Rightarrow> Inl e
             | Inr neighbors \<Rightarrow>
                 (case read_cell (heap s') (grid s') (Some (int i)) (Some (int j)) of
                    Inl e \<Rightarrow> Inl e
                  | Inr currentCell \<Rightarrow>
                      if currentCell \<and> (neighbors < 2 \<or> neighbors > 3) then
                        write_cell s' (nextGrid s') i j False
                      else if \<not> currentCell \<and> neighbors = 3 then
                        write_cell s' (nextGrid s') i j True
                      else write_cell s' (nextGrid s') i j currentCell)))) s = Inr t"
    and st: "stepping s t" and d: "done_upto s t (rows s) 0" by blast
  have "computeNextGeneration s = Inr (t\<lparr>grid := nextGrid t, nextGrid := grid t\<rparr>)"
    unfolding computeNextGeneration_def t by simp
  moreover have "grid t = grid s" "nextGrid t = nextGrid s" using st by (simp_all add: stepping_def)
  ultimately show ?thesis using st d by auto
qed

lemma stepping_swap_inv:
  assumes "grid_inv s" "stepping s t"
  shows "grid_inv (t\<lparr>grid := nextGrid s, nextGrid := grid s\<rparr>)"
  using assms by (auto simp: grid_inv_def stepping_def list_all_iff)

lemma live_neighbours_offsets:
  assumes "3 \<le> cols s" "3 \<le> rows s" "0 \<le> x" "x < int (cols s)" "0 \<le> y" "y < int (rows s)"
  shows "live_neighbours s g x y = length (filter (alive_at s g) (neighbour_cells s x y))"
proof -
  have d: "distinct (neighbour_cells s x y)"
    using assms(1,2) by (rule neighbour_cells_distinct)
  have n: "(nat x, nat y) \<notin> set (neighbour_cells s x y)"
    using assms by (rule neighbour_cells_not_self)
  have "filter (\<lambda>p. p \<noteq> (nat x, nat y) \<and> alive_at s g p) (neighbour_cells s x y)
          = filter (alive_at s g) (neighbour_cells s x y)"
    using n by (intro filter_cong) auto
  then show ?thesis using d by (simp add: live_neighbours_def distinct_remdups_id)
qed

text \<open>
  C1 (as amended). On a grid of the shape that \<open>initializeGrid\<close> builds,
  \<open>computeNextGeneration\<close> returns with the two buffers swapped, and every cell of
  the new \<open>grid\<close> is computed from the old one alone: with \<open>n\<close> the number of the
  eight non-zero offsets whose wrapped position holds a live cell of the old grid, a
  live cell is alive afterwards iff \<open>n\<close> is 2 or 3 and a dead cell iff \<open>n\<close> is 3.
  On a grid of at least three rows and three columns \<open>n\<close> is the number of live
  neighbours, and this is the rule of the Game of Life. The rows of the old grid are
  unchanged by the step, so no update reads a value that the step has written.
\<close>

theorem computeNextGeneration_rule:
  assumes "grid_inv s"
  shows "\<exists>s'. computeNextGeneration s = Inr s'
           \<and> grid s' = nextGrid s \<and> nextGrid s' = grid s
           \<and> rows s' = rows s \<and> cols s' = cols s \<and> grid_inv s'
           \<and> (\<forall>i<rows s. \<forall>j<cols s.
                 cell s' i j \<longleftrightarrow>
                   (if alive_at s (grid s) (j, i)
                    then length (filter (alive_at s (grid s)) (neighbour_cells s (int j) (int i)))
                           \<in> {2, 3}
                    else length (filter (alive_at s (grid s)) (neighbour_cells s (int j) (int i)))
                           = 3))
           \<and> (3 \<le> rows s \<and> 3 \<le> cols s \<longrightarrow>
                (\<forall>i<rows s. \<forall>j<cols s.
                   cell s' i j \<longleftrightarrow>
                     (if alive_at s (grid s) (j, i)
                      then live_neighbours s (grid s) (int j) (int i) \<in> {2, 3}
                      else live_neighbours s (grid s) (int j) (int i) = 3)))
           \<and> (\<forall>i<rows s. heap s' ! (grid s ! i) = heap s ! (grid s ! i))"
proof -
  from computeNextGeneration_result [OF assms] obtain t where
    r: "computeNextGeneration s = Inr (t\<lparr>grid := nextGrid s, nextGrid := grid s\<rparr>)"
    and st: "stepping s t" and d: "done_upto s t (rows s) 0" by blast
  let ?s' = "t\<lparr>grid := nextGrid s, nextGrid := grid s\<rparr>"
  let ?n = "\<lambda>i j. length (filter (alive_at s (grid s)) (neighbour_cells s (int j) (int i)))"
  have cells: "cell ?s' i j \<longleftrightarrow> (if alive_at s (grid s) (j, i) then ?n i j \<in> {2, 3} else ?n i j = 3)"
    if "i < rows s" "j < cols s" for i j
  proof -
    have "cell ?s' i j = next_cell s i j"
      using d that by (simp add: done_upto_def cell_def)
    moreover have "alive_at s (grid s) (j, i) = cell s i j"
      by (simp add: alive_at_def cell_def)
    ultimately show ?thesis by (simp add: next_cell_def life_rule_def)
  qed
  have big: "cell ?s' i j \<longleftrightarrow>
               (if alive_at s (grid s) (j, i)
                then live_neighbours s (grid s) (int j) (int i) \<in> {2, 3}
                else live_neighbours s (grid s) (int j) (int i) = 3)"
    if "3 \<le> rows s \<and> 3 \<le> cols s" "i < rows s" "j < cols s" for i j
  proof -
    have "live_neighbours s (grid s) (int j) (int i) = ?n i j"
      using that by (intro live_neighbours_offsets) simp_all
    then show ?thesis using cells [OF that(2,3)] by simp
  qed
  have old: "heap ?s' ! (grid s ! i) = heap s ! (grid s ! i)" if "i < rows s" for i
  proof -
    have "grid s ! i \<in> set (grid s)" using assms that by (simp add: grid_inv_def)
    then show ?thesis using stepping_reads [OF assms st] by simp
  qed
  have f: "rows ?s' = rows s" "cols ?s' = cols s" using st by (simp_all add: stepping_def)
  have inv: "grid_inv ?s'" using assms st by (rule stepping_swap_inv)
  have g: "grid ?s' = nextGrid s" "nextGrid ?s' = grid s" by simp_all
  show ?thesis
    apply (rule exI [of _ ?s'])
    apply (intro conjI allI impI)
            apply (rule r)
           apply (rule g(1))
          apply (rule g(2))
         apply (rule f(1))
        apply (rule f(2))
       apply (rule inv)
      apply (erule (1) cells)
     apply (erule (2) big)
    apply (erule old)
    done
qed

lemma grid_inv_blinker: "grid_inv blinker"
  by (simp add: grid_inv_def blinker_def)

lemma grid_inv_narrow: "grid_inv narrow"
  by (simp add: grid_inv_def narrow_def)

text \<open>
  C1 as stated fails on a grid narrower than three: in one column of three rows with
  the top cell alive, the dead cell below it has one live neighbour and is born, and
  the live cell has none and survives, because every offset to the left or right wraps
  onto the same column.
\<close>

theorem narrow_grid_breaks_rule:
  "grid_inv narrow
   \<and> \<not> cell narrow 1 0 \<and> live_neighbours narrow (grid narrow) 0 1 = 1
   \<and> cell narrow 0 0 \<and> live_neighbours narrow (grid narrow) 0 0 = 0
   \<and> computeNextGeneration narrow
       = Inr \<lparr>cols = 1, rows = 3, heap = [[True], [False], [False], [True], [True], [True]],
              grid = [3, 4, 5], nextGrid = [0, 1, 2], canvas = None, browser = True\<rparr>"
proof -
  have l: "live_neighbours narrow (grid narrow) 0 1 = 1" "live_neighbours narrow (grid narrow) 0 0 = 0"
    by (simp_all add: live_neighbours_def neighbour_cells_def offsets_def wrap_def alive_at_def
        narrow_def)
  have c: "\<not> cell narrow 1 0" "cell narrow 0 0" by (simp_all add: cell_def narrow_def)
  have "computeNextGeneration narrow
       = Inr \<lparr>cols = 1, rows = 3, heap = [[True], [False], [False], [True], [True], [True]],
              grid = [3, 4, 5], nextGrid = [0, 1, 2], canvas = None, browser = True\<rparr>"
    by code_simp
  then show ?thesis using grid_inv_narrow l c by blast
qed


theorem computeNextGeneration_rule_witness:
  "grid_inv blinker \<and> 3 \<le> rows blinker \<and> 3 \<le> cols blinker
   \<and> (1::nat) < rows blinker \<and> (0::nat) < cols blinker
   \<and> \<not> alive_at blinker (grid blinker) (0, 1)
   \<and> live_neighbours blinker (grid blinker) 0 1 = 3
   \<and> (\<exists>s'. computeNextGeneration blinker = Inr s' \<and> grid s' = nextGrid blinker \<and> cell s' 1 0)"
proof -
  have h: "3 \<le> rows blinker \<and> 3 \<le> cols blinker" "(1::nat) < rows blinker"
    "(0::nat) < cols blinker"
    by (simp_all add: blinker_def)
  have a: "\<not> alive_at blinker (grid blinker) (0, 1)" by (simp add: alive_at_def blinker_def)
  have l: "live_neighbours blinker (grid blinker) 0 1 = 3"
    by (simp add: live_neighbours_def neighbour_cells_def offsets_def wrap_def alive_at_def
        blinker_def)
  from computeNextGeneration_rule [OF grid_inv_blinker] obtain s' where
    s': "computeNextGeneration blinker = Inr s'" "grid s' = nextGrid blinker"
    and rule: "3 \<le> rows blinker \<and> 3 \<le> cols blinker \<longrightarrow>
                (\<forall>i<rows blinker. \<forall>j<cols blinker.
                   cell s' i j \<longleftrightarrow>
                     (if alive_at blinker (grid blinker) (j, i)
                      then live_neighbours blinker (grid blinker) (int j) (int i) \<in> {2, 3}
                      else live_neighbours blinker (grid blinker) (int j) (int i) = 3))"
    by (elim exE conjE) (rule that)
  from rule h have "cell s' 1 0 \<longleftrightarrow>
                     (if alive_at blinker (grid blinker) (0, 1)
                      then live_neighbours blinker (grid blinker) (int 0) (int 1) \<in> {2, 3}
                      else live_neighbours blinker (grid blinker) (int 0) (int 1) = 3)"
    by blast
  then have "cell s' 1 0" using a l by simp
  then show ?thesis using grid_inv_blinker h a l s' by blast
qed

lemma resize_canvas_fields [simp]:
  "rows (resize_canvas s) = rows s" "cols (resize_canvas s) = cols s"
  "browser (resize_canvas s) = browser s" "heap (resize_canvas s) = heap s"
  by (simp_all add: resize_canvas_def split: option.splits)

lemma resize_canvas_fits: "canvas_fits (resize_canvas s)"
  by (simp add: canvas_fits_def resize_canvas_def split: option.splits)

lemma canvas_fits_cong:
  "canvas t = canvas s \<Longrightarrow> cols t = cols s \<Longrightarrow> rows t = rows s \<Longrightarrow> canvas_fits s
     \<Longrightarrow> canvas_fits t"
  by (auto simp: canvas_fits_def split: option.splits)

lemma grid_inv_viewport:
  assumes "grid_inv s" "rows s = innerHeight w div cellSize" "cols s = innerWidth w div cellSize"
    "canvas_fits s"
  shows "viewport_inv w s"
proof -
  have "list_all (\<lambda>a. length (heap s ! a) = cols s) (grid s @ nextGrid s)"
    using assms(1) unfolding grid_inv_def list_all_iff by blast
  moreover have "length (grid s) = rows s" "length (nextGrid s) = rows s"
    using assms(1) by (simp_all add: grid_inv_def)
  ultimately show ?thesis using assms(2-4) by (simp add: viewport_inv_def)
qed

lemma initializeGrid_viewport:
  assumes "rows s = innerHeight w div cellSize" "cols s = innerWidth w div cellSize"
    and "canvas_fits s"
  shows "\<exists>s'. initializeGrid floor03 floor07 random s = Inr s'
           \<and> viewport_inv w s' \<and> grid_inv s' \<and> browser s' = browser s"
proof -
  from initializeGrid_filled obtain s' where
    s': "initializeGrid floor03 floor07 random s = Inr s'"
    and f: "filled (floor03 (cols s)) (floor07 (cols s)) (allocated s) s'" by blast
  have inv: "grid_inv s'" using f grid_inv_allocated by (rule filled_grid_inv)
  have fields: "rows s' = rows s" "cols s' = cols s" "canvas s' = canvas s" "browser s' = browser s"
    using f by (simp_all add: filled_def)
  have "canvas_fits s'"
    using fields(3,2,1) assms(3) by (rule canvas_fits_cong)
  then have "viewport_inv w s'"
    using inv assms(1,2) fields(1,2) by (intro grid_inv_viewport) simp_all
  then show ?thesis using s' inv fields(4) by blast
qed

text \<open>
  C9. After the mount callback, and after every \<open>handleResize\<close> once mounted,
  \<open>grid\<close> and \<open>nextGrid\<close> have \<open>rows = floor(innerHeight / cellSize)\<close> rows of
  \<open>cols = floor(innerWidth / cellSize)\<close> cells each, no row array is shared, and the
  canvas, when it is bound, is \<open>cols * cellSize\<close> by \<open>rows * cellSize\<close>; a generation
  step keeps all of this.
\<close>

theorem grid_matches_viewport:
  "(\<exists>s'. onMount floor03 floor07 random w s = Inr s'
        \<and> viewport_inv w s' \<and> grid_inv s' \<and> browser s')
   \<and> (browser s \<longrightarrow>
        (\<exists>s'. handleResize floor03 floor07 random w s = Inr s'
             \<and> viewport_inv w s' \<and> grid_inv s' \<and> browser s'))
   \<and> (viewport_inv w s \<and> grid_inv s \<longrightarrow>
        (\<exists>s'. computeNextGeneration s = Inr s' \<and> viewport_inv w s' \<and> grid_inv s'))"
proof (intro conjI impI)
  let ?m = "resize_canvas (s\<lparr>browser := True, cols := innerWidth w div cellSize,
                               rows := innerHeight w div cellSize\<rparr>)"
  have "\<exists>s'. initializeGrid floor03 floor07 random ?m = Inr s'
           \<and> viewport_inv w s' \<and> grid_inv s' \<and> browser s' = browser ?m"
    by (intro initializeGrid_viewport resize_canvas_fits) simp_all
  then show "\<exists>s'. onMount floor03 floor07 random w s = Inr s'
        \<and> viewport_inv w s' \<and> grid_inv s' \<and> browser s'"
    by (auto simp: onMount_def)
next
  assume b: "browser s"
  let ?m = "resize_canvas (s\<lparr>cols := innerWidth w div cellSize,
                               rows := innerHeight w div cellSize\<rparr>)"
  have "\<exists>s'. initializeGrid floor03 floor07 random ?m = Inr s'
           \<and> viewport_inv w s' \<and> grid_inv s' \<and> browser s' = browser ?m"
    by (intro initializeGrid_viewport resize_canvas_fits) simp_all
  then show "\<exists>s'. handleResize floor03 floor07 random w s = Inr s'
             \<and> viewport_inv w s' \<and> grid_inv s' \<and> browser s'"
    using b by (auto simp: handleResize_def)
next
  assume a: "viewport_inv w s \<and> grid_inv s"
  then have inv: "grid_inv s" by blast
  from computeNextGeneration_result [OF inv] obtain t where
    r: "computeNextGeneration s = Inr (t\<lparr>grid := nextGrid s, nextGrid := grid s\<rparr>)"
    and st: "stepping s t" by blast
  let ?s' = "t\<lparr>grid := nextGrid s, nextGrid := grid s\<rparr>"
  have inv': "grid_inv ?s'" using inv st by (rule stepping_swap_inv)
  have f: "canvas ?s' = canvas s" "cols ?s' = cols s" "rows ?s' = rows s"
    using st by (simp_all add: stepping_def)
  from a have v: "rows s = innerHeight w div cellSize" "cols s = innerWidth w div cellSize"
    "canvas_fits s" by (simp_all add: viewport_inv_def)
  have "canvas_fits ?s'" using f v(3) by (rule canvas_fits_cong)
  then have "viewport_inv w ?s'"
    using inv' v(1,2) f(2,3) by (intro grid_inv_viewport) simp_all
  then show "\<exists>s'. computeNextGeneration s = Inr s' \<and> viewport_inv w s' \<and> grid_inv s'"
    using r inv' by blast
qed

theorem grid_matches_viewport_witness:
  "(\<exists>s'. onMount tenths3 tenths7 all_alive small_window
            (initial_life (Some \<lparr>width = 300, height = 150\<rparr>)) = Inr s'
        \<and> rows s' = 3 \<and> cols s' = 10 \<and> length (grid s') = 3 \<and> length (nextGrid s') = 3
        \<and> canvas s' = Some \<lparr>width = 150, height = 45\<rparr>)
   \<and> browser blinker
   \<and> (\<exists>s'. handleResize tenths3 tenths7 all_alive small_window blinker = Inr s'
        \<and> rows s' = 3 \<and> cols s' = 10 \<and> length (grid s') = 3)
   \<and> viewport_inv one_cell_window lonely \<and> grid_inv lonely
   \<and> (\<exists>s'. computeNextGeneration lonely = Inr s' \<and> viewport_inv one_cell_window s')"
proof -
  let ?i = "initial_life (Some \<lparr>width = 300, height = 150\<rparr>)"
  note t = grid_matches_viewport [of tenths3 tenths7 all_alive small_window ?i]
  from t obtain s1 where
    s1: "onMount tenths3 tenths7 all_alive small_window ?i = Inr s1" "viewport_inv small_window s1"
    by blast
  have c1: "canvas s1 = Some \<lparr>width = 150, height = 45\<rparr>"
  proof -
    from s1(1) have "\<exists>s'. initializeGrid tenths3 tenths7 all_alive
        (resize_canvas (?i\<lparr>browser := True, cols := innerWidth small_window div cellSize,
                           rows := innerHeight small_window div cellSize\<rparr>)) = Inr s1"
      by (simp add: onMount_def)
    moreover note initializeGrid_filled [of tenths3 tenths7 all_alive
        "resize_canvas (?i\<lparr>browser := True, cols := innerWidth small_window div cellSize,
                           rows := innerHeight small_window div cellSize\<rparr>)"]
    ultimately have "canvas s1 = canvas (resize_canvas (?i\<lparr>browser := True,
        cols := innerWidth small_window div cellSize,
        rows := innerHeight small_window div cellSize\<rparr>))"
      by (auto simp: filled_def allocated_def)
    then show ?thesis
      by (simp add: resize_canvas_def initial_life_def small_window_def cellSize_def)
  qed
  have b: "browser blinker" by (simp add: blinker_def)
  from grid_matches_viewport [of tenths3 tenths7 all_alive small_window blinker] b obtain s2 where
    s2: "handleResize tenths3 tenths7 all_alive small_window blinker = Inr s2"
      "viewport_inv small_window s2"
    by blast
  have l: "viewport_inv one_cell_window lonely" "grid_inv lonely"
    by (simp_all add: viewport_inv_def canvas_fits_def grid_inv_def lonely_def
        one_cell_window_def cellSize_def)
  from grid_matches_viewport [of tenths3 tenths7 all_alive one_cell_window lonely] l obtain s3 where
    s3: "computeNextGeneration lonely = Inr s3" "viewport_inv one_cell_window s3"
    by blast
  have dims: "innerHeight small_window div cellSize = 3" "innerWidth small_window div cellSize = 10"
    by (simp_all add: small_window_def cellSize_def)
  have "rows s1 = 3 \<and> cols s1 = 10 \<and> length (grid s1) = 3 \<and> length (nextGrid s1) = 3"
    using s1(2) dims by (simp add: viewport_inv_def)
  moreover have "rows s2 = 3 \<and> cols s2 = 10 \<and> length (grid s2) = 3"
    using s2(2) dims by (simp add: viewport_inv_def)
  ultimately show ?thesis using s1(1) c1 b s2(1) l s3 by blast
qed

theorem initializeGrid_center_dead_witness:
  "(0::nat) < rows (initial_life None) \<and> (50::nat) < cols (initial_life None)
   \<and> tenths3 (cols (initial_life None)) \<le> int 50 \<and> int 50 < tenths7 (cols (initial_life None))
   \<and> (\<exists>s'. initializeGrid tenths3 tenths7 all_alive (initial_life None) = Inr s'
          \<and> \<not> cell s' 0 50)"
proof -
  have h: "(0::nat) < rows (initial_life None)" "(50::nat) < cols (initial_life None)"
    "tenths3 (cols (initial_life None)) \<le> int 50 \<and> int 50 < tenths7 (cols (initial_life None))"
    by (simp_all add: initial_life_def tenths3_def tenths7_def)
  from initializeGrid_center_dead [of tenths3 tenths7 all_alive "initial_life None"]
  obtain s' where "initializeGrid tenths3 tenths7 all_alive (initial_life None) = Inr s'"
    "\<forall>i<rows (initial_life None). \<forall>j<cols (initial_life None).
       tenths3 (cols (initial_life None)) \<le> int j \<and> int j < tenths7 (cols (initial_life None))
       \<longrightarrow> \<not> cell s' i j"
    by blast
  then show ?thesis using h by blast
qed

theorem countNeighbors_counts_offsets_witness:
  "well_formed blinker (grid blinker) \<and> (0::int) \<le> 0 \<and> 0 < int (cols blinker)
   \<and> (0::int) \<le> 1 \<and> 1 < int (rows blinker) \<and> 3 \<le> cols blinker \<and> 3 \<le> rows blinker
   \<and> countNeighbors blinker (grid blinker) 0 1 = Inr (live_neighbours blinker (grid blinker) 0 1)
   \<and> live_neighbours blinker (grid blinker) 0 1 = 3"
proof -
  have h: "well_formed blinker (grid blinker)" "(0::int) \<le> 0" "0 < int (cols blinker)"
    "(0::int) \<le> 1" "1 < int (rows blinker)" "3 \<le> cols blinker \<and> 3 \<le> rows blinker"
    by (simp_all add: well_formed_def blinker_def)
  have l: "live_neighbours blinker (grid blinker) 0 1 = 3"
    by (simp add: live_neighbours_def neighbour_cells_def offsets_def wrap_def alive_at_def
        blinker_def)
  from countNeighbors_counts_offsets [OF h(1-5)] h(6)
  have "countNeighbors blinker (grid blinker) 0 1 = Inr (live_neighbours blinker (grid blinker) 0 1)"
    by blast
  then show ?thesis using h l by blast
qed

end
